theory Spec2Isabelle
  imports Complex_Main "HOL-Library.Word" "HOL-Library.Multiset"
begin

unbundle bit_operations_syntax

section \<open>The RandomAccess (GUPS) single-CPU core\<close>

text \<open>
  A shallow embedding of \<^verbatim>\<open>core_single_cpu.c\<close>. A \<^verbatim>\<open>uint64_t\<close> is a \<open>64 word\<close>,
  the \<^verbatim>\<open>int64_t\<close> argument of \<^verbatim>\<open>HPCC_starts\<close> is an \<open>int\<close> (the caller passes the
  two's complement reading \<open>sint\<close> of the word it computed; inside the function no
  operation leaves the 64-bit range), the table and the local arrays are lists, and every
  loop is a recursive function on its counter.
\<close>

type_synonym u64 = "64 word"

subsection \<open>Constants\<close>

definition POLY :: u64 where
  "POLY = 7"

definition PERIOD :: int where
  "PERIOD = 1317624576693539401"

text \<open>\<^verbatim>\<open>#define NUPDATE (4 * TableSize)\<close>, an unsigned 64-bit product.\<close>

definition NUPDATE :: "u64 \<Rightarrow> u64" where
  "NUPDATE TableSize = 4 * TableSize"

subsection \<open>The transition rule\<close>

text \<open>
  The expression \<^verbatim>\<open>(ran << 1) ^ ((int64_t) ran < 0 ? POLY : 0)\<close>, which the source
  writes out at each of its uses.
\<close>

definition lfsr_next :: "u64 \<Rightarrow> u64" where
  "lfsr_next rn = push_bit 1 rn XOR (if sint rn < 0 then POLY else 0)"

subsection \<open>Jump-ahead: \<^verbatim>\<open>HPCC_starts\<close>\<close>

text \<open>\<^verbatim>\<open>while (n < 0) n += PERIOD;\<close>\<close>

function norm_up :: "int \<Rightarrow> int" where
  "norm_up n = (if n < 0 then norm_up (n + PERIOD) else n)"
  by pat_completeness auto
termination
  by (relation "measure (\<lambda>n. nat (- n))") (auto simp: PERIOD_def)

declare norm_up.simps [simp del]

text \<open>\<^verbatim>\<open>while (n > PERIOD) n -= PERIOD;\<close>\<close>

function norm_down :: "int \<Rightarrow> int" where
  "norm_down n = (if n > PERIOD then norm_down (n - PERIOD) else n)"
  by pat_completeness auto
termination
  by (relation "measure (\<lambda>n. nat n)") (auto simp: PERIOD_def)

declare norm_down.simps [simp del]

text \<open>
  The first \<^verbatim>\<open>for\<close> loop fills \<^verbatim>\<open>m2[0..63]\<close>: entry \<open>i\<close> receives \<open>temp\<close>, which
  is then advanced by two transitions.
\<close>

function fill_m2 :: "nat \<Rightarrow> u64 \<Rightarrow> u64 list \<Rightarrow> u64 list" where
  "fill_m2 i temp m2 =
     (if i < 64
      then fill_m2 (i + 1) (lfsr_next (lfsr_next temp)) (m2[i := temp])
      else m2)"
  by pat_completeness auto
termination
  by (relation "measure (\<lambda>(i, temp, m2). 64 - i)") auto

declare fill_m2.simps [simp del]

text \<open>The test \<^verbatim>\<open>(n >> i) & 1\<close> on the signed argument, for \<open>i \<ge> 0\<close>.\<close>

definition bit_of_n :: "int \<Rightarrow> int \<Rightarrow> bool" where
  "bit_of_n n i = (drop_bit (nat i) n AND 1 \<noteq> 0)"

text \<open>
  \<^verbatim>\<open>for (i=62; i>=0; i--) if ((n >> i) & 1) break;\<close> returns the value of \<open>i\<close>
  at the exit of the loop: the position found, or \<open>-1\<close>.
\<close>

function find_top :: "int \<Rightarrow> int \<Rightarrow> int" where
  "find_top n i =
     (if i \<ge> 0
      then (if bit_of_n n i then i else find_top n (i - 1))
      else i)"
  by pat_completeness auto
termination
  by (relation "measure (\<lambda>(n, i). nat (i + 1))") auto

declare find_top.simps [simp del]

text \<open>
  \<^verbatim>\<open>for (j=0; j<64; j++) if ((ran >> j) & 1) temp ^= m2[j];\<close>
\<close>

function square_loop :: "nat \<Rightarrow> u64 \<Rightarrow> u64 list \<Rightarrow> u64 \<Rightarrow> u64" where
  "square_loop j rn m2 temp =
     (if j < 64
      then square_loop (j + 1) rn m2
             (if drop_bit j rn AND 1 \<noteq> 0 then temp XOR m2 ! j else temp)
      else temp)"
  by pat_completeness auto
termination
  by (relation "measure (\<lambda>(j, rn, m2, temp). 64 - j)") auto

declare square_loop.simps [simp del]

text \<open>
  \<^verbatim>\<open>while (i > 0) { temp = 0; <square_loop>; ran = temp; i -= 1;
     if ((n >> i) & 1) ran = <next ran>; }\<close>
\<close>

function power_loop :: "int \<Rightarrow> int \<Rightarrow> u64 list \<Rightarrow> u64 \<Rightarrow> u64" where
  "power_loop i n m2 rn =
     (if i > 0
      then (let temp = square_loop 0 rn m2 0;
                rn' = temp;
                i' = i - 1;
                rn'' = (if bit_of_n n i' then lfsr_next rn' else rn')
            in power_loop i' n m2 rn'')
      else rn)"
  by pat_completeness auto
termination
  by (relation "measure (\<lambda>(i, n, m2, rn). nat i)") auto

declare power_loop.simps [simp del]

text \<open>
  The local array \<^verbatim>\<open>m2\<close> is uninitialised in the source; every entry is written by
  \<open>fill_m2\<close> before the first read, so the model starts it as 64 zero words.
\<close>

definition HPCC_starts :: "int \<Rightarrow> u64" where
  "HPCC_starts n0 =
     (let n = norm_down (norm_up n0)
      in if n = 0 then 1
         else (let m2 = fill_m2 0 1 (replicate 64 0);
                   i = find_top n 62
               in power_loop i n m2 2))"

subsection \<open>The table and its update\<close>

text \<open>
  The table is the list of its words. \<^verbatim>\<open>value & (TableSize-1)\<close> is the index of an
  update, and \<^verbatim>\<open>Table[k] ^= v\<close> rewrites one entry. The index never leaves a table of
  \<open>TableSize\<close> words when \<open>TableSize\<close> is not zero (lemma \<open>masked_index_in_range\<close>),
  so the out-of-range write of C is never reached from this program.
\<close>

definition masked_index :: "u64 \<Rightarrow> u64 \<Rightarrow> u64" where
  "masked_index TableSize v = v AND (TableSize - 1)"

definition xor_update :: "u64 \<Rightarrow> u64 \<Rightarrow> u64 list \<Rightarrow> u64 list" where
  "xor_update TableSize v Table =
     (let k = unat (masked_index TableSize v) in Table[k := Table ! k XOR v])"

subsection \<open>\<^verbatim>\<open>RandomAccessUpdate\<close>\<close>

text \<open>
  \<^verbatim>\<open>for (j=0; j<128; j++) ran[j] = HPCC_starts ((NUPDATE/128) * j);\<close>
  The product is unsigned 64-bit arithmetic; passing it as \<^verbatim>\<open>int64_t\<close> reads the same
  bits in two's complement.
\<close>

function init_streams :: "nat \<Rightarrow> u64 \<Rightarrow> u64 list \<Rightarrow> u64 list" where
  "init_streams j TableSize rn =
     (if j < 128
      then init_streams (j + 1) TableSize
             (rn[j := HPCC_starts (sint ((NUPDATE TableSize div 128) * word_of_nat j))])
      else rn)"
  by pat_completeness auto
termination
  by (relation "measure (\<lambda>(j, TableSize, rn). 128 - j)") auto

declare init_streams.simps [simp del]

text \<open>
  The inner loop: \<^verbatim>\<open>for (j=0; j<128; j++) { ran[j] = <next ran[j]>;
  Table[ran[j] & (TableSize-1)] ^= ran[j]; }\<close>
\<close>

function update_streams :: "nat \<Rightarrow> u64 \<Rightarrow> u64 list \<times> u64 list \<Rightarrow> u64 list \<times> u64 list" where
  "update_streams j TableSize (rn, Table) =
     (if j < 128
      then (let rn' = rn[j := lfsr_next (rn ! j)]
            in update_streams (j + 1) TableSize (rn', xor_update TableSize (rn' ! j) Table))
      else (rn, Table))"
  by pat_completeness auto
termination
  by (relation "measure (\<lambda>(j, TableSize, s). 128 - j)") auto

declare update_streams.simps [simp del]

text \<open>The outer loop: \<^verbatim>\<open>for (i=0; i<NUPDATE/128; i++)\<close>, with its 64-bit counter.\<close>

function update_loop :: "u64 \<Rightarrow> u64 \<Rightarrow> u64 list \<times> u64 list \<Rightarrow> u64 list \<times> u64 list" where
  "update_loop i TableSize s =
     (if i < NUPDATE TableSize div 128
      then update_loop (i + 1) TableSize (update_streams 0 TableSize s)
      else s)"
  by pat_completeness auto
termination
proof (relation "measure (\<lambda>(i, TableSize, s). unat (NUPDATE TableSize div 128) - unat i)")
  show "wf (measure (\<lambda>(i, TableSize, s). unat (NUPDATE TableSize div 128) - unat i))"
    by simp
next
  fix i TableSize :: u64 and s :: "u64 list \<times> u64 list"
  assume lt: "i < NUPDATE TableSize div 128"
  then have "unat i < unat (NUPDATE TableSize div 128)"
    by (simp add: word_less_nat_alt)
  moreover have "unat (NUPDATE TableSize div 128) < 2 ^ 64"
    using unsigned_less [of "NUPDATE TableSize div 128", where ?'a = nat] by simp
  ultimately have "unat i + unat (1 :: u64) < 2 ^ LENGTH(64)"
    by simp
  then have "unat (i + 1) = Suc (unat i)"
    using unat_add_lem [of i 1] by simp
  with lt show "((i + 1, TableSize, update_streams 0 TableSize s), (i, TableSize, s))
      \<in> measure (\<lambda>(i, TableSize, s). unat (NUPDATE TableSize div 128) - unat i)"
    by (simp add: word_less_nat_alt)
qed

declare update_loop.simps [simp del]

text \<open>
  The local array \<^verbatim>\<open>ran[128]\<close> is uninitialised in the source and written in full by
  \<open>init_streams\<close>; the model starts it as 128 zero words.
\<close>

definition RandomAccessUpdate :: "u64 \<Rightarrow> u64 list \<Rightarrow> u64 list" where
  "RandomAccessUpdate TableSize Table =
     snd (update_loop 0 TableSize (init_streams 0 TableSize (replicate 128 0), Table))"

subsection \<open>The driver: \<^verbatim>\<open>main\<close>\<close>

text \<open>
  The \<^verbatim>\<open>double\<close> values of the sizing loop and of the timing are modelled as exact
  reals. In the sizing loop every value is a power of two and halving it is exact. The
  comparison that decides the verdict is modelled on IEEE binary64 values, with their
  rounding (see \<open>round53\<close> below). The two readings of the clock are inputs of the
  model. Division is checked: dividing by zero is the value \<open>Inl DivisionByZero\<close>, so
  that a theorem can say it does not happen.

  \<^verbatim>\<open>for (totalMem *= 0.5, logTableSize = 0, TableSize = 1; totalMem >= 1.0;
       totalMem *= 0.5, logTableSize++, TableSize <<= 1) ;\<close>
  The function below is the loop from its first test on.
\<close>

function size_loop :: "real \<Rightarrow> u64 \<Rightarrow> u64 \<Rightarrow> real \<times> u64 \<times> u64" where
  "size_loop totalMem logTableSize TableSize =
     (if totalMem \<ge> 1
      then size_loop (totalMem * 0.5) (logTableSize + 1) (push_bit 1 TableSize)
      else (totalMem, logTableSize, TableSize))"
  by pat_completeness auto
termination
proof (relation "measure (\<lambda>(totalMem, logTableSize, TableSize). nat \<lfloor>2 * totalMem\<rfloor>)")
  show "wf (measure (\<lambda>(totalMem, logTableSize, TableSize). nat \<lfloor>2 * totalMem\<rfloor>))"
    by simp
next
  fix totalMem :: real and logTableSize TableSize :: u64
  assume "1 \<le> totalMem"
  then have "\<lfloor>totalMem\<rfloor> + 1 \<le> \<lfloor>2 * totalMem\<rfloor>" and "0 \<le> \<lfloor>totalMem\<rfloor>"
    by linarith+
  then have "nat \<lfloor>totalMem\<rfloor> < nat \<lfloor>2 * totalMem\<rfloor>"
    by linarith
  then show "((totalMem * 0.5, logTableSize + 1, push_bit 1 TableSize),
              (totalMem, logTableSize, TableSize))
      \<in> measure (\<lambda>(totalMem, logTableSize, TableSize). nat \<lfloor>2 * totalMem\<rfloor>)"
    by simp
qed

declare size_loop.simps [simp del]

text \<open>
  \<^verbatim>\<open>totalMem = 1UL<<32; totalMem /= sizeof(uint64_t);\<close> and the sizing loop; the
  result is \<open>(totalMem, logTableSize, TableSize)\<close> at the exit of the loop.
\<close>

definition table_sizing :: "real \<times> u64 \<times> u64" where
  "table_sizing = (let totalMem = 2 ^ 32; totalMem = totalMem / 8
                   in size_loop (totalMem * 0.5) 0 1)"

text \<open>\<^verbatim>\<open>for (i=0; i<TableSize; i++) Table[i] = i;\<close>\<close>

function init_table :: "u64 \<Rightarrow> u64 \<Rightarrow> u64 list \<Rightarrow> u64 list" where
  "init_table i TableSize Table =
     (if i < TableSize
      then init_table (i + 1) TableSize (Table[unat i := i])
      else Table)"
  by pat_completeness auto
termination
proof (relation "measure (\<lambda>(i, TableSize, Table). unat TableSize - unat i)")
  show "wf (measure (\<lambda>(i, TableSize, Table). unat TableSize - unat i))"
    by simp
next
  fix i TableSize :: u64 and Table :: "u64 list"
  assume lt: "i < TableSize"
  then have "unat i < unat TableSize"
    by (simp add: word_less_nat_alt)
  moreover have "unat TableSize < 2 ^ 64"
    using unsigned_less [of TableSize, where ?'a = nat] by simp
  ultimately have "unat i + unat (1 :: u64) < 2 ^ LENGTH(64)"
    by simp
  then have "unat (i + 1) = Suc (unat i)"
    using unat_add_lem [of i 1] by simp
  with lt show "((i + 1, TableSize, Table[unat i := i]), (i, TableSize, Table))
      \<in> measure (\<lambda>(i, TableSize, Table). unat TableSize - unat i)"
    by (simp add: word_less_nat_alt)
qed

declare init_table.simps [simp del]

text \<open>
  The verification replay:
  \<^verbatim>\<open>temp = 0x1; for (i=0; i<NUPDATE; i++) { temp = <next temp>;
  Table[temp & (TableSize-1)] ^= temp; }\<close>
  It is also the scalar loop that the comment in \<^verbatim>\<open>RandomAccessUpdate\<close> gives as the
  equivalent of the interleaved one.
\<close>

function verify_loop :: "u64 \<Rightarrow> u64 \<Rightarrow> u64 \<times> u64 list \<Rightarrow> u64 \<times> u64 list" where
  "verify_loop i TableSize (temp, Table) =
     (if i < NUPDATE TableSize
      then (let temp' = lfsr_next temp
            in verify_loop (i + 1) TableSize (temp', xor_update TableSize temp' Table))
      else (temp, Table))"
  by pat_completeness auto
termination
proof (relation "measure (\<lambda>(i, TableSize, s). unat (NUPDATE TableSize) - unat i)")
  show "wf (measure (\<lambda>(i, TableSize, s). unat (NUPDATE TableSize) - unat i))"
    by simp
next
  fix i TableSize temp temp' :: u64 and Table :: "u64 list"
  assume lt: "i < NUPDATE TableSize"
  then have "unat i < unat (NUPDATE TableSize)"
    by (simp add: word_less_nat_alt)
  moreover have "unat (NUPDATE TableSize) < 2 ^ 64"
    using unsigned_less [of "NUPDATE TableSize", where ?'a = nat] by simp
  ultimately have "unat i + unat (1 :: u64) < 2 ^ LENGTH(64)"
    by simp
  then have "unat (i + 1) = Suc (unat i)"
    using unat_add_lem [of i 1] by simp
  with lt show "((i + 1, TableSize, temp', xor_update TableSize temp' Table),
                 (i, TableSize, temp, Table))
      \<in> measure (\<lambda>(i, TableSize, s). unat (NUPDATE TableSize) - unat i)"
    by (simp add: word_less_nat_alt)
qed

declare verify_loop.simps [simp del]

definition scalar_update :: "u64 \<Rightarrow> u64 list \<Rightarrow> u64 list" where
  "scalar_update TableSize Table = snd (verify_loop 0 TableSize (1, Table))"

text \<open>
  \<^verbatim>\<open>temp = 0; for (i=0; i<TableSize; i++) if (Table[i] != i) temp++;\<close>
\<close>

function count_errors :: "u64 \<Rightarrow> u64 \<Rightarrow> u64 list \<Rightarrow> u64 \<Rightarrow> u64" where
  "count_errors i TableSize Table temp =
     (if i < TableSize
      then count_errors (i + 1) TableSize Table
             (if Table ! unat i \<noteq> i then temp + 1 else temp)
      else temp)"
  by pat_completeness auto
termination
proof (relation "measure (\<lambda>(i, TableSize, Table, temp). unat TableSize - unat i)")
  show "wf (measure (\<lambda>(i, TableSize, Table, temp). unat TableSize - unat i))"
    by simp
next
  fix i TableSize temp :: u64 and Table :: "u64 list"
  assume lt: "i < TableSize"
  then have "unat i < unat TableSize"
    by (simp add: word_less_nat_alt)
  moreover have "unat TableSize < 2 ^ 64"
    using unsigned_less [of TableSize, where ?'a = nat] by simp
  ultimately have "unat i + unat (1 :: u64) < 2 ^ LENGTH(64)"
    by simp
  then have "unat (i + 1) = Suc (unat i)"
    using unat_add_lem [of i 1] by simp
  with lt show "((i + 1, TableSize, Table, if Table ! unat i \<noteq> i then temp + 1 else temp),
                 (i, TableSize, Table, temp))
      \<in> measure (\<lambda>(i, TableSize, Table, temp). unat TableSize - unat i)"
    by (simp add: word_less_nat_alt)
qed

declare count_errors.simps [simp del]

text \<open>
  \<^verbatim>\<open>double GUPs = (realtime > 0.0 ? 1.0 / realtime : -1.0); GUPs *= 1e-9*NUPDATE;\<close>
\<close>

datatype fault = DivisionByZero

definition checked_div :: "real \<Rightarrow> real \<Rightarrow> fault + real" where
  "checked_div a b = (if b = 0 then Inl DivisionByZero else Inr (a / b))"

definition compute_GUPs :: "real \<Rightarrow> u64 \<Rightarrow> fault + real" where
  "compute_GUPs realtime nupdate =
     (case (if realtime > 0 then checked_div 1 realtime else Inr (- 1)) of
        Inl e \<Rightarrow> Inl e
      | Inr GUPs \<Rightarrow> Inr (GUPs * (0.000000001 * real (unat nupdate))))"

text \<open>
  The test \<^verbatim>\<open>temp <= 0.01*TableSize\<close> is a comparison of two \<^verbatim>\<open>double\<close> values: both
  integers are converted to \<^verbatim>\<open>double\<close>, the literal \<^verbatim>\<open>0.01\<close> is the binary64 number
  \<open>5764607523034235 / 2^59\<close>, and the product is rounded. A binary64 number has 53
  significant bits and the rounding is to the nearest such number, ties to the even
  significand.

  \<open>shift53 n\<close> is the number of low bits of \<open>n\<close> that do not fit in 53 bits, and
  \<open>round53 n\<close> is \<open>n\<close> rounded to 53 significant bits.
\<close>

function shift53 :: "nat \<Rightarrow> nat" where
  "shift53 n = (if n < 2 ^ 53 then 0 else Suc (shift53 (n div 2)))"
  by pat_completeness auto
termination
  by (relation "measure (\<lambda>n. n)") auto

declare shift53.simps [simp del]

definition round53 :: "nat \<Rightarrow> nat" where
  "round53 n =
     (let s = shift53 n; q = n div 2 ^ s; r = n mod 2 ^ s
      in if 2 * r > 2 ^ s \<or> (2 * r = 2 ^ s \<and> odd q) then (q + 1) * 2 ^ s else q * 2 ^ s)"

text \<open>The conversion of a \<^verbatim>\<open>uint64_t\<close> to \<^verbatim>\<open>double\<close>.\<close>

definition double_of_u64 :: "u64 \<Rightarrow> real" where
  "double_of_u64 w = real (round53 (unat w))"

text \<open>
  The \<^verbatim>\<open>double\<close> product \<^verbatim>\<open>0.01*TableSize\<close>: the exact product of the two binary64
  numbers is \<open>5764607523034235 * round53 (unat TableSize) / 2^59\<close>, and scaling by a
  power of two does not change which bits are rounded away (the values are far from the
  ends of the exponent range).
\<close>

definition tolerance :: "u64 \<Rightarrow> real" where
  "tolerance TableSize = real (round53 (5764607523034235 * round53 (unat TableSize))) / 2 ^ 59"

text \<open>The word printed by \<^verbatim>\<open>(temp <= 0.01*TableSize) ? "passed" : "failed"\<close>.\<close>

definition verdict_of :: "u64 \<Rightarrow> u64 \<Rightarrow> string" where
  "verdict_of temp TableSize =
     (if double_of_u64 temp \<le> tolerance TableSize then ''passed'' else ''failed'')"

text \<open>What the five \<^verbatim>\<open>printf\<close> calls print, in their order.\<close>

record report =
  shown_logTableSize :: u64
  shown_TableSize :: u64
  shown_updates :: u64
  shown_realtime :: real
  shown_GUPs :: real
  shown_errors :: u64
  shown_verdict :: string

text \<open>
  How a run ends: the failed \<^verbatim>\<open>assert\<close> aborts the process, a fault is a division by
  zero, and \<open>Exited c r\<close> is \<^verbatim>\<open>return c\<close> after printing \<open>r\<close>.
\<close>

datatype outcome = Aborted | Faulted fault | Exited int report

text \<open>
  Lines 154 to 197 of \<^verbatim>\<open>main\<close>, everything after the allocation has succeeded, as a
  function of the table size, of the allocated block (whose contents are arbitrary) and of
  the two clock readings.
\<close>

definition run_benchmark :: "u64 \<Rightarrow> u64 \<Rightarrow> u64 list \<Rightarrow> real \<Rightarrow> real \<Rightarrow> outcome" where
  "run_benchmark logTableSize TableSize block t0 t1 =
     (let Table = init_table 0 TableSize block;
          realtime = t0;
          Table = RandomAccessUpdate TableSize Table;
          realtime = t1 - realtime
      in case compute_GUPs realtime (NUPDATE TableSize) of
           Inl e \<Rightarrow> Faulted e
         | Inr GUPs \<Rightarrow>
             (let Table = snd (verify_loop 0 TableSize (1, Table));
                  temp = count_errors 0 TableSize Table 0
              in Exited 0 \<lparr> shown_logTableSize = logTableSize,
                            shown_TableSize = TableSize,
                            shown_updates = NUPDATE TableSize,
                            shown_realtime = realtime,
                            shown_GUPs = GUPs,
                            shown_errors = temp,
                            shown_verdict = verdict_of temp TableSize \<rparr>))"

text \<open>
  \<^verbatim>\<open>main\<close>: the answer of \<^verbatim>\<open>malloc\<close> is an input, \<open>None\<close> for \<^verbatim>\<open>NULL\<close> and
  \<open>Some block\<close> for a block of \<open>TableSize\<close> words.
\<close>

definition main :: "u64 list option \<Rightarrow> real \<Rightarrow> real \<Rightarrow> outcome" where
  "main heap t0 t1 =
     (case table_sizing of
        (totalMem, logTableSize, TableSize) \<Rightarrow>
          (case heap of
             None \<Rightarrow> Aborted
           | Some block \<Rightarrow> run_benchmark logTableSize TableSize block t0 t1))"

section \<open>Notions used in the proofs\<close>

text \<open>The state after \<open>k\<close> transitions from state 1.\<close>

definition pw :: "nat \<Rightarrow> u64" where
  "pw k = (lfsr_next ^^ k) 1"

text \<open>The table \<^verbatim>\<open>m2\<close> as \<^verbatim>\<open>HPCC_starts\<close> builds it, and the map its inner loop computes.\<close>

definition m2_table :: "u64 list" where
  "m2_table = fill_m2 0 1 (replicate 64 0)"

definition sq :: "u64 \<Rightarrow> u64" where
  "sq r = square_loop 0 r m2_table 0"

text \<open>
  The same arithmetic on natural numbers below \<open>2 ^ 64\<close>, in a form that the simplifier
  evaluates on numerals: one transition, the squaring map digit by digit, and the state
  after \<open>n\<close> transitions by binary exponentiation.
\<close>

definition nstep :: "nat \<Rightarrow> nat" where
  "nstep c = (if c < 9223372036854775808 then 2 * c
              else (2 * c - 18446744073709551616) XOR 7)"

function nsq :: "nat \<Rightarrow> nat" where
  "nsq c = (if c = 0 then 0
            else if odd c then nstep (nstep (nsq (c div 2))) XOR 1
            else nstep (nstep (nsq (c div 2))))"
  by pat_completeness auto
termination
  by (relation "measure (\<lambda>c. c)") auto

declare nsq.simps [simp del]

function npw :: "nat \<Rightarrow> nat" where
  "npw n = (if n = 0 then 1
            else if odd n then nstep (nsq (npw (n div 2)))
            else nsq (npw (n div 2)))"
  by pat_completeness auto
termination
  by (relation "measure (\<lambda>n. n)") auto

declare npw.simps [simp del]

text \<open>The start state of stream \<open>j\<close>, as \<open>init_streams\<close> computes it.\<close>

definition stream_start :: "u64 \<Rightarrow> nat \<Rightarrow> u64" where
  "stream_start TableSize j = HPCC_starts (sint ((NUPDATE TableSize div 128) * word_of_nat j))"

text \<open>
  The positions in the sequence that the interleaved loops visit, in their order: round
  \<open>i\<close> of \<open>K\<close> rounds advances stream \<open>j\<close> of \<open>S\<close> streams to position
  \<open>i + K * j\<close> (counted from 0).
\<close>

definition interleaved :: "nat \<Rightarrow> nat \<Rightarrow> nat list" where
  "interleaved S K = concat (map (\<lambda>i. map (\<lambda>j. i + K * j) [0..<S]) [0..<K])"

text \<open>The exit status and the printed report of a run that returned.\<close>

definition exit_code :: "outcome \<Rightarrow> int option" where
  "exit_code out = (case out of Exited c r \<Rightarrow> Some c | _ \<Rightarrow> None)"

definition printed :: "outcome \<Rightarrow> report option" where
  "printed out = (case out of Exited c r \<Rightarrow> Some r | _ \<Rightarrow> None)"

text \<open>The positions of a table that do not hold their own index.\<close>

definition mismatches :: "u64 list \<Rightarrow> nat set" where
  "mismatches Table = {i. i < length Table \<and> Table ! i \<noteq> word_of_nat i}"


section \<open>The generator: linearity and the squaring map\<close>

lemma sint_neg_iff_bit63: "sint (w::u64) < 0 \<longleftrightarrow> bit w 63"
  using bit_last_iff [of w] by simp

lemma lfsr_next_zero: "lfsr_next 0 = 0"
  by (simp add: lfsr_next_def)

lemma lfsr_next_xor: "lfsr_next (a XOR b) = lfsr_next a XOR lfsr_next b"
  by (simp add: lfsr_next_def sint_neg_iff_bit63 bit_xor_iff ac_simps)

lemma test_bit: "(drop_bit j (r::u64) AND 1 \<noteq> 0) \<longleftrightarrow> bit r j"
  by (simp add: bit_iff_and_drop_bit_eq_1 and_one_eq)

lemma xor_acc_split:
  "(if bit (a XOR b) j then (s XOR t) XOR m else s XOR t) =
   (if bit a j then s XOR m else s) XOR (if bit b j then t XOR m else t)"
  for a b s t m :: u64
  by (rule bit_eqI) (auto simp: bit_xor_iff)

lemma square_loop_step:
  "j < 64 \<Longrightarrow> square_loop j r m2 t =
     square_loop (Suc j) r m2 (if bit r j then t XOR m2 ! j else t)"
  by (subst square_loop.simps) (simp add: test_bit)

lemma square_loop_done: "64 \<le> j \<Longrightarrow> square_loop j r m2 t = t"
  by (subst square_loop.simps) simp

lemma square_loop_xor:
  "square_loop j (a XOR b) m2 (s XOR t) = square_loop j a m2 s XOR square_loop j b m2 t"
proof (induction "64 - j" arbitrary: j s t)
  case 0
  then show ?case by (simp add: square_loop_done)
next
  case (Suc d)
  then have j: "j < 64" and d: "d = 64 - Suc j" by simp_all
  show ?case
    by (simp only: square_loop_step [OF j] xor_acc_split Suc.hyps(1) [OF d])
qed

lemma square_loop_basis:
  "k < 64 \<Longrightarrow> square_loop j (2 ^ k) m2 t = (if j \<le> k then t XOR m2 ! k else t)"
proof (induction "64 - j" arbitrary: j t)
  case 0
  then show ?case by (simp add: square_loop_done)
next
  case (Suc d)
  then have j: "j < 64" and d: "d = 64 - Suc j" by simp_all
  show ?case
    using Suc.prems
    by (auto simp add: square_loop_step [OF j] Suc.hyps(1) [OF d] bit_exp_iff not_less_eq_eq)
qed

lemma take_bit_Suc_xor:
  "take_bit (Suc n) (r::u64) = take_bit n r XOR (if bit r n then 2 ^ n else 0)"
  by (rule bit_eqI) (auto simp: bit_simps less_Suc_eq)

lemma additive_zero:
  assumes "\<And>a b. F (a XOR b) = F a XOR F b"
  shows "F (0::u64) = (0::u64)"
proof -
  have "F 0 = F (0 XOR 0)" by simp
  also have "\<dots> = F 0 XOR F 0" by (rule assms)
  finally show ?thesis by simp
qed

lemma additive_ext:
  fixes F G :: "u64 \<Rightarrow> u64"
  assumes F: "\<And>a b. F (a XOR b) = F a XOR F b"
    and G: "\<And>a b. G (a XOR b) = G a XOR G b"
    and basis: "\<And>k. k < 64 \<Longrightarrow> F (2 ^ k) = G (2 ^ k)"
  shows "F r = G r"
proof -
  have "F (take_bit n r) = G (take_bit n r)" if "n \<le> 64" for n
    using that
  proof (induction n)
    case 0
    show ?case by (simp add: additive_zero [of F, OF F] additive_zero [of G, OF G])
  next
    case (Suc n)
    then have "n < 64" and IH: "F (take_bit n r) = G (take_bit n r)" by simp_all
    show ?case
      by (cases "bit r n") (simp_all add: take_bit_Suc_xor F G IH basis [OF \<open>n < 64\<close>])
  qed
  from this [of 64] show ?thesis by (simp add: take_bit_word_eq_self)
qed


lemma fill_m2_step:
  "i < 64 \<Longrightarrow> fill_m2 i temp m2 = fill_m2 (Suc i) (lfsr_next (lfsr_next temp)) (m2[i := temp])"
  by (subst fill_m2.simps) simp

lemma fill_m2_done: "64 \<le> i \<Longrightarrow> fill_m2 i temp m2 = m2"
  by (subst fill_m2.simps) simp

lemma fill_m2_nth:
  "length m2 = 64 \<Longrightarrow> i \<le> 64 \<Longrightarrow> k < 64 \<Longrightarrow>
   fill_m2 i temp m2 ! k = (if k < i then m2 ! k else (lfsr_next ^^ (2 * (k - i))) temp)"
proof (induction "64 - i" arbitrary: i temp m2)
  case 0
  then show ?case by (simp add: fill_m2_done)
next
  case (Suc d)
  then have i: "i < 64" and d: "d = 64 - Suc i" by simp_all
  have IH: "fill_m2 (Suc i) (lfsr_next (lfsr_next temp)) (m2[i := temp]) ! k =
      (if k < Suc i then m2[i := temp] ! k
       else (lfsr_next ^^ (2 * (k - Suc i))) (lfsr_next (lfsr_next temp)))"
    using Suc.hyps(1) [OF d, of "m2[i := temp]" "lfsr_next (lfsr_next temp)"] Suc.prems i
    by simp
  show ?case
  proof (cases "k \<le> i")
    case True
    with Suc.prems i IH show ?thesis
      by (cases "k = i") (simp_all add: fill_m2_step)
  next
    case False
    then have "2 * (k - i) = Suc (Suc (2 * (k - Suc i)))" by simp
    with False show ?thesis
      by (simp add: fill_m2_step [OF i] IH funpow_swap1)
  qed
qed

lemma m2_table_nth: "k < 64 \<Longrightarrow> m2_table ! k = pw (2 * k)"
  by (simp add: m2_table_def fill_m2_nth pw_def)

lemma sq_xor: "sq (a XOR b) = sq a XOR sq b"
  using square_loop_xor [of 0 a b m2_table 0 0] by (simp add: sq_def)

lemma sq_basis: "k < 64 \<Longrightarrow> sq (2 ^ k) = pw (2 * k)"
  by (simp add: sq_def square_loop_basis m2_table_nth)

lemma pw_Suc: "pw (Suc k) = lfsr_next (pw k)"
  by (simp add: pw_def)

lemma pw_0: "pw 0 = 1"
  by (simp add: pw_def)

lemma lfsr_next_exp: "k < 63 \<Longrightarrow> lfsr_next (2 ^ k) = 2 ^ Suc k"
  by (simp add: lfsr_next_def sint_neg_iff_bit63 bit_exp_iff)

lemma lfsr_next_top: "lfsr_next (2 ^ 63) = 7"
  by (simp add: lfsr_next_def sint_neg_iff_bit63 bit_exp_iff POLY_def)

lemma lfsr_next_top_num: "lfsr_next 9223372036854775808 = 7"
  using lfsr_next_top by simp

lemma pw_small: "k \<le> 63 \<Longrightarrow> pw k = 2 ^ k"
proof (induction k)
  case 0
  show ?case by (simp add: pw_0)
next
  case (Suc k)
  then show ?case by (simp add: pw_Suc lfsr_next_exp del: power_Suc)
qed

lemma funpow_lfsr_xor:
  "(lfsr_next ^^ n) (a XOR b) = (lfsr_next ^^ n) a XOR (lfsr_next ^^ n) b"
  by (induction n) (simp_all add: lfsr_next_xor)

lemma pw_add: "pw (m + n) = (lfsr_next ^^ m) (pw n)"
  by (simp add: pw_def funpow_add)

lemma pw_64: "pw 64 = 7"
  using pw_Suc [of 63] by (simp add: pw_small lfsr_next_top_num)

lemma seven_split: "(7 :: u64) = pw 0 XOR pw 1 XOR pw 2"
  by (simp add: pw_small)

lemma pw_reduce: "pw (j + 64) = pw j XOR pw (j + 1) XOR pw (j + 2)"
proof -
  have "pw (j + 64) = (lfsr_next ^^ j) (pw 0 XOR pw 1 XOR pw 2)"
    by (simp only: pw_add pw_64 seven_split)
  also have "\<dots> = pw j XOR pw (j + 1) XOR pw (j + 2)"
    by (simp only: funpow_lfsr_xor pw_add [symmetric] add_0_right)
  finally show ?thesis .
qed

lemma pw_128: "pw 128 = 21"
proof -
  have a: "pw 65 = 14"
    using pw_reduce [of 1] by (simp add: pw_small)
  have b: "pw 66 = 28"
    using pw_reduce [of 2] by (simp add: pw_small)
  show ?thesis
    using pw_reduce [of 64] by (simp add: pw_64 a b)
qed

lemma sq_7: "sq 7 = 21"
proof -
  have s1: "sq 1 = 1" using sq_basis [of 0] by (simp add: pw_small)
  have s2: "sq 2 = 4" using sq_basis [of 1] by (simp add: pw_small)
  have s4: "sq 4 = 16" using sq_basis [of 2] by (simp add: pw_small)
  have "(7 :: u64) = 1 XOR 2 XOR 4" by simp
  then have "sq 7 = sq 1 XOR sq 2 XOR sq 4" by (simp only: sq_xor)
  then show ?thesis by (simp add: s1 s2 s4)
qed

lemma sq_lfsr_next: "sq (lfsr_next r) = lfsr_next (lfsr_next (sq r))"
proof (rule additive_ext [where F = "\<lambda>r. sq (lfsr_next r)" and G = "\<lambda>r. lfsr_next (lfsr_next (sq r))"])
  fix a b :: u64
  show "sq (lfsr_next (a XOR b)) = sq (lfsr_next a) XOR sq (lfsr_next b)"
    by (simp only: lfsr_next_xor sq_xor)
  show "lfsr_next (lfsr_next (sq (a XOR b))) =
        lfsr_next (lfsr_next (sq a)) XOR lfsr_next (lfsr_next (sq b))"
    by (simp only: lfsr_next_xor sq_xor)
next
  fix k :: nat
  assume k: "k < 64"
  show "sq (lfsr_next (2 ^ k)) = lfsr_next (lfsr_next (sq (2 ^ k)))"
  proof (cases "k = 63")
    case True
    have "sq (lfsr_next (2 ^ 63)) = sq 7"
      by (simp add: lfsr_next_top_num)
    also have "\<dots> = 21"
      by (rule sq_7)
    finally have l: "sq (lfsr_next (2 ^ 63)) = 21" .
    have "sq (2 ^ 63) = pw 126"
      using sq_basis [of 63] by simp
    moreover have "lfsr_next (lfsr_next (pw 126)) = pw 128"
      using pw_Suc [of 126] pw_Suc [of 127] by simp
    ultimately have "lfsr_next (lfsr_next (sq (2 ^ 63))) = 21"
      by (simp only: pw_128)
    with l True show ?thesis by simp
  next
    case False
    with k have k': "k < 63" by simp
    have "sq (lfsr_next (2 ^ k)) = pw (2 * Suc k)"
      using k' sq_basis [of "Suc k"] by (simp only: lfsr_next_exp)
    also have "\<dots> = lfsr_next (lfsr_next (pw (2 * k)))"
      by (simp add: pw_Suc)
    finally show ?thesis using k by (simp add: sq_basis)
  qed
qed

lemma sq_pw: "sq (pw k) = pw (2 * k)"
proof (induction k)
  case 0
  have "sq (2 ^ 0) = pw 0" by (simp only: sq_basis) simp
  then show ?case by (simp add: pw_0)
next
  case (Suc k)
  then show ?case by (simp add: pw_Suc sq_lfsr_next)
qed

subsection \<open>Evaluation on natural numbers\<close>

lemma top_bit_unat: "sint (w :: u64) < 0 \<longleftrightarrow> 9223372036854775808 \<le> unat w"
proof -
  have lt: "unat w < 2 * 9223372036854775808"
    using unsigned_less [of w, where ?'a = nat] by simp
  have "bit w 63 \<longleftrightarrow> bit (unat w) 63"
    by (simp add: bit_unsigned_iff)
  also have "\<dots> \<longleftrightarrow> odd (unat w div 9223372036854775808)"
    by (simp add: bit_iff_odd)
  also have "\<dots> \<longleftrightarrow> 9223372036854775808 \<le> unat w"
  proof (cases "unat w < 9223372036854775808")
    case True
    then show ?thesis by simp
  next
    case False
    with lt have "unat w div 9223372036854775808 = 1"
      by (intro div_nat_eqI) simp_all
    with False show ?thesis by simp
  qed
  finally show ?thesis
    by (simp only: sint_neg_iff_bit63)
qed

lemma unat_lfsr_next: "unat (lfsr_next w) = nstep (unat w)"
proof -
  have lt: "unat w < 18446744073709551616"
    using unsigned_less [of w, where ?'a = nat] by simp
  have sh: "unat (push_bit 1 w) = (2 * unat w) mod 18446744073709551616"
    by (simp add: unat_word_ariths mult.commute)
  show ?thesis
  proof (cases "unat w < 9223372036854775808")
    case True
    then show ?thesis
      using sh by (simp add: lfsr_next_def nstep_def top_bit_unat unsigned_xor_eq)
  next
    case False
    with lt have "(2 * unat w) mod 18446744073709551616 = 2 * unat w - 18446744073709551616"
      by (simp add: mod_if)
    with False show ?thesis
      using sh by (simp add: lfsr_next_def nstep_def top_bit_unat unsigned_xor_eq POLY_def)
  qed
qed

lemma sq_zero: "sq 0 = 0"
  by (rule additive_zero [of sq]) (rule sq_xor)

lemma sq_one: "sq 1 = 1"
  using sq_basis [of 0] by (simp add: pw_0)

lemma word_split_low: "(w :: u64) = push_bit 1 (drop_bit 1 w) XOR (if odd w then 1 else 0)"
proof (rule bit_eqI)
  fix n
  show "bit w n \<longleftrightarrow> bit (push_bit 1 (drop_bit 1 w) XOR (if odd w then 1 else 0)) n"
  proof (cases n)
    case 0
    then show ?thesis
      by (simp add: bit_0 even_xor_iff even_push_bit_iff del: push_bit_Suc)
  next
    case (Suc m)
    have "bit w (Suc m) \<Longrightarrow> m < 63"
      using bit_imp_le_length [of w "Suc m"] by simp
    with Suc show ?thesis
      by (auto simp add: bit_xor_iff bit_push_bit_iff bit_drop_bit_eq bit_1_iff
          simp del: push_bit_Suc)
  qed
qed

lemma lfsr_next_half: "lfsr_next (drop_bit 1 (w :: u64)) = push_bit 1 (drop_bit 1 w)"
proof -
  have "\<not> bit (drop_bit 1 w) 63"
  proof
    assume "bit (drop_bit 1 w) 63"
    then have "bit w 64"
      by (simp add: bit_drop_bit_eq)
    then have "64 < LENGTH(64)"
      by (rule bit_imp_le_length)
    then show False by simp
  qed
  then have nb: "\<not> sint (drop_bit 1 w) < 0"
    by (simp only: sint_neg_iff_bit63 not_False_eq_True)
  have "lfsr_next (drop_bit 1 w) = push_bit 1 (drop_bit 1 w) XOR 0"
    unfolding lfsr_next_def by (simp only: nb if_False)
  then show ?thesis by simp
qed

lemma sq_split: "sq w = lfsr_next (lfsr_next (sq (drop_bit 1 w))) XOR (if odd w then 1 else 0)"
proof -
  have "sq w = sq (lfsr_next (drop_bit 1 w) XOR (if odd w then 1 else 0))"
    using word_split_low [of w] by (simp only: lfsr_next_half)
  also have "\<dots> = sq (lfsr_next (drop_bit 1 w)) XOR sq (if odd w then 1 else 0)"
    by (rule sq_xor)
  finally show ?thesis
    by (simp add: sq_lfsr_next sq_zero sq_one)
qed

lemma nsq_zero: "nsq 0 = 0"
  by (subst nsq.simps) simp

lemma nsq_pos:
  "c \<noteq> 0 \<Longrightarrow> nsq c = (if odd c then nstep (nstep (nsq (c div 2))) XOR 1
                       else nstep (nstep (nsq (c div 2))))"
  by (subst nsq.simps) simp

lemma unat_sq: "unat (sq w) = nsq (unat w)"
proof (induction "unat w" arbitrary: w rule: less_induct)
  case less
  show ?case
  proof (cases "w = 0")
    case True
    then show ?thesis by (simp add: sq_zero nsq_zero)
  next
    case False
    then have nz: "unat w \<noteq> 0"
      by (simp add: unsigned_eq_0_iff)
    have "unat (drop_bit 1 w) = drop_bit 1 (unat w)"
      by (rule unat_drop_bit_eq)
    also have "\<dots> = unat w div 2"
      by (simp only: drop_bit_eq_div power_one_right)
    finally have half: "unat (drop_bit 1 w) = unat w div 2" .
    with nz have "unat (drop_bit 1 w) < unat w"
      by simp
    then have "unat (sq (drop_bit 1 w)) = nsq (unat (drop_bit 1 w))"
      by (rule less)
    then have IH: "unat (sq (drop_bit 1 w)) = nsq (unat w div 2)"
      by (simp only: half)
    have odd_iff: "odd (unat w) \<longleftrightarrow> odd w"
      using bit_unsigned_iff [of w 0, where ?'a = nat] by (simp add: bit_0)
    have "unat (lfsr_next (lfsr_next (sq (drop_bit 1 w)))) = nstep (nstep (nsq (unat w div 2)))"
      by (simp only: unat_lfsr_next IH)
    then have l: "unat (sq w) = nstep (nstep (nsq (unat w div 2))) XOR (if odd w then 1 else 0)"
      by (subst sq_split) (simp add: unsigned_xor_eq)
    show ?thesis
      by (simp only: l nsq_pos [OF nz] odd_iff) simp
  qed
qed

lemma pw_halve:
  "0 < n \<Longrightarrow> pw n = (if odd n then lfsr_next (sq (pw (n div 2))) else sq (pw (n div 2)))"
proof (cases "odd n")
  case True
  then have "n = Suc (2 * (n div 2))" by presburger
  then have "pw n = lfsr_next (pw (2 * (n div 2)))"
    using pw_Suc [of "2 * (n div 2)"] by simp
  with True show ?thesis by (simp add: sq_pw)
next
  case False
  then have "n = 2 * (n div 2)" by presburger
  then have "pw n = pw (2 * (n div 2))" by simp
  with False show ?thesis by (simp add: sq_pw)
qed

lemma unat_pw: "unat (pw n) = npw n"
proof (induction n rule: npw.induct)
  case (1 n)
  show ?case
  proof (cases "n = 0")
    case True
    then show ?thesis by (simp add: pw_0 npw.simps)
  next
    case False
    then have pos: "0 < n" by simp
    show ?thesis
    proof (cases "odd n")
      case True
      with False "1.IH"(1) have "unat (pw (n div 2)) = npw (n div 2)" by simp
      with True False show ?thesis
        by (subst pw_halve [OF pos], subst npw.simps) (simp add: unat_lfsr_next unat_sq)
    next
      case False
      with \<open>n \<noteq> 0\<close> "1.IH"(2) have "unat (pw (n div 2)) = npw (n div 2)" by simp
      with False \<open>n \<noteq> 0\<close> show ?thesis
        by (subst pw_halve [OF pos], subst npw.simps) (simp add: unat_sq)
    qed
  qed
qed

lemma npw_period: "npw 1317624576693539401 = 1"
  by (simp add: npw.simps nsq.simps nstep_def)

lemma pw_period: "pw 1317624576693539401 = 1"
proof -
  have "unat (pw 1317624576693539401) = unat (1 :: u64)"
    by (simp only: unat_pw npw_period) simp
  then show ?thesis
    by (simp only: word_unat_eq_iff)
qed

lemma pw_add_period: "pw (k + 1317624576693539401) = pw k"
  by (simp only: pw_add pw_period) (simp add: pw_def)

lemma pw_mod_period: "pw k = pw (k mod 1317624576693539401)"
proof (induction k rule: less_induct)
  case (less k)
  show ?case
  proof (cases "k < 1317624576693539401")
    case True
    then show ?thesis by simp
  next
    case False
    define j where "j = k - 1317624576693539401"
    with False have j: "k = j + 1317624576693539401"
      by simp
    then have "j < k" by simp
    from less [OF this] show ?thesis
      by (simp add: j pw_add_period)
  qed
qed

subsection \<open>The generator never reaches zero\<close>

lemma lfsr_next_eq_0: "lfsr_next r = 0 \<Longrightarrow> r = 0"
proof -
  assume z: "lfsr_next r = 0"
  have "unat (lfsr_next r) = nstep (unat r)"
    by (rule unat_lfsr_next)
  with z have n0: "nstep (unat r) = 0"
    by simp
  have "unat r = 0"
  proof (cases "unat r < 9223372036854775808")
    case True
    with n0 show ?thesis by (simp add: nstep_def)
  next
    case False
    with n0 have "(2 * unat r - 18446744073709551616) XOR 7 = 0"
      by (simp add: nstep_def)
    then have "even ((2 * unat r - 18446744073709551616) XOR 7)"
      by simp
    then have "odd (2 * unat r - 18446744073709551616)"
      by (simp add: even_xor_iff)
    moreover from False have "even (2 * unat r - 18446744073709551616)"
      by simp
    ultimately show ?thesis by simp
  qed
  then show "r = 0"
    by (simp add: unsigned_eq_0_iff)
qed

lemma pw_nonzero: "pw k \<noteq> 0"
proof (induction k)
  case 0
  show ?case by (simp add: pw_0)
next
  case (Suc k)
  then show ?case
    using lfsr_next_eq_0 [of "pw k"] by (auto simp add: pw_Suc)
qed

subsection \<open>The masked index\<close>

lemma masked_index_mod: "masked_index (2 ^ k) v = v mod 2 ^ k"
proof -
  have "v AND (2 ^ k - 1) = take_bit k v"
    by (simp only: take_bit_eq_mask mask_eq_exp_minus_1)
  then show ?thesis
    by (simp only: masked_index_def take_bit_eq_mod)
qed

lemma masked_index_in_range:
  assumes "TableSize \<noteq> 0"
  shows "unat (masked_index TableSize v) < unat TableSize"
proof -
  have "v AND (TableSize - 1) \<le> TableSize - 1"
    by (rule word_and_le1)
  then have "unat (v AND (TableSize - 1)) \<le> unat (TableSize - 1)"
    by (simp only: word_le_nat_alt)
  moreover have "unat (TableSize - 1) = unat TableSize - 1"
    using assms by (rule unat_minus_one)
  moreover have "unat TableSize \<noteq> 0"
    using assms by (simp add: unsigned_eq_0_iff)
  ultimately show ?thesis
    by (simp add: masked_index_def)
qed

subsection \<open>\<^verbatim>\<open>HPCC_starts\<close> computes the state after \<open>n\<close> transitions\<close>

lemma bit_of_n_iff: "bit_of_n (int a) (int j) \<longleftrightarrow> odd (a div 2 ^ j)"
proof -
  have e: "drop_bit (nat (int j)) (int a) = int (a div 2 ^ j)"
    by (simp add: drop_bit_eq_div zdiv_int)
  have p: "(int q mod 2 = 1) \<longleftrightarrow> odd q" for q :: nat
    by presburger
  show ?thesis
    unfolding bit_of_n_def e and_one_eq by (simp add: p)
qed

lemma find_top_step:
  "find_top n (int m) = (if bit_of_n n (int m) then int m else find_top n (int m - 1))"
  by (subst find_top.simps) simp

lemma find_top_spec:
  "0 < a \<Longrightarrow> a < 2 ^ Suc m \<Longrightarrow>
   \<exists>t\<le>m. find_top (int a) (int m) = int t \<and> a div 2 ^ t = 1"
proof (induction m)
  case 0
  then have a: "a = 1" by simp
  have b: "bit_of_n 1 0"
    by (simp add: bit_of_n_def)
  have "find_top 1 0 = 0"
    by (subst find_top.simps) (simp add: b)
  with a show ?case by simp
next
  case (Suc m)
  have small: "a div 2 ^ Suc m < 2"
    using Suc.prems(2) by (simp add: less_mult_imp_div_less)
  show ?case
  proof (cases "odd (a div 2 ^ Suc m)")
    case True
    with small have "a div 2 ^ Suc m = 1"
      by (cases "a div 2 ^ Suc m") auto
    moreover from True have "bit_of_n (int a) (int (Suc m))"
      using bit_of_n_iff [of a "Suc m"] by blast
    then have "find_top (int a) (int (Suc m)) = int (Suc m)"
      using find_top_step [of "int a" "Suc m"] by (simp only: if_True)
    ultimately show ?thesis by blast
  next
    case False
    with small have "a div 2 ^ Suc m = 0"
      by (cases "a div 2 ^ Suc m") auto
    then have lt: "a < 2 ^ Suc m"
      by (simp add: div_eq_0_iff)
    from False have "\<not> bit_of_n (int a) (int (Suc m))"
      using bit_of_n_iff [of a "Suc m"] by blast
    then have "find_top (int a) (int (Suc m)) = find_top (int a) (int (Suc m) - 1)"
      using find_top_step [of "int a" "Suc m"] by (simp only: if_False)
    also have "int (Suc m) - 1 = int m" by simp
    finally have eq: "find_top (int a) (int (Suc m)) = find_top (int a) (int m)" .
    from Suc.IH [OF Suc.prems(1) lt] obtain t
      where "t \<le> m" and "find_top (int a) (int m) = int t" and "a div 2 ^ t = 1"
      by blast
    with eq show ?thesis
      by (intro exI [of _ t]) simp
  qed
qed

lemma power_loop_done: "power_loop 0 n m2 r = r"
  by (subst power_loop.simps) simp

lemma power_loop_step:
  "power_loop (int (Suc i)) n m2 r =
     power_loop (int i) n m2
       (if bit_of_n n (int i) then lfsr_next (square_loop 0 r m2 0) else square_loop 0 r m2 0)"
  by (subst power_loop.simps) (simp add: Let_def)

lemma nat_halve: "q = 2 * (q div 2) + (if odd q then 1 else 0)"
  for q :: nat
  using mult_div_mod_eq [of 2 q] by (simp add: mod2_eq_if)

lemma halve_digit: "a div 2 ^ i = 2 * (a div 2 ^ Suc i) + (if odd (a div 2 ^ i) then 1 else 0)"
  for a :: nat
proof -
  have "a div 2 ^ Suc i = a div (2 ^ i * 2)"
    by (simp add: mult.commute)
  also have "\<dots> = (a div 2 ^ i) div 2"
    by (rule div_mult2_eq)
  finally have h: "a div 2 ^ Suc i = (a div 2 ^ i) div 2" .
  show ?thesis
    unfolding h by (rule nat_halve)
qed

lemma power_loop_pw: "power_loop (int i) (int a) m2_table (pw (a div 2 ^ i)) = pw a"
proof (induction i)
  case 0
  show ?case using power_loop_done [of "int a" m2_table "pw a"] by simp
next
  case (Suc i)
  have s: "square_loop 0 (pw (a div 2 ^ Suc i)) m2_table 0 = pw (2 * (a div 2 ^ Suc i))"
    using sq_pw [of "a div 2 ^ Suc i"] by (simp only: sq_def)
  have d: "(if bit_of_n (int a) (int i) then lfsr_next (pw (2 * (a div 2 ^ Suc i)))
         else pw (2 * (a div 2 ^ Suc i))) = pw (a div 2 ^ i)"
  proof (cases "odd (a div 2 ^ i)")
    case True
    then have "a div 2 ^ i = Suc (2 * (a div 2 ^ Suc i))"
      using halve_digit [of a i] by simp
    then have "pw (a div 2 ^ i) = lfsr_next (pw (2 * (a div 2 ^ Suc i)))"
      using pw_Suc [of "2 * (a div 2 ^ Suc i)"] by simp
    moreover from True have "bit_of_n (int a) (int i)"
      by (simp add: bit_of_n_iff)
    ultimately show ?thesis by simp
  next
    case False
    then have "a div 2 ^ i = 2 * (a div 2 ^ Suc i)"
      using halve_digit [of a i] by simp
    then have "pw (a div 2 ^ i) = pw (2 * (a div 2 ^ Suc i))"
      by simp
    moreover from False have "\<not> bit_of_n (int a) (int i)"
      by (simp add: bit_of_n_iff)
    ultimately show ?thesis by simp
  qed
  show ?case
    by (simp only: power_loop_step s d Suc.IH)
qed

lemma PERIOD_pos: "0 < PERIOD"
  by (simp add: PERIOD_def)

lemma norm_up_eq: "norm_up n = (if n < 0 then n mod PERIOD else n)"
proof (induction n rule: norm_up.induct)
  case (1 n)
  show ?case
  proof (cases "n < 0")
    case False
    then show ?thesis by (subst norm_up.simps) simp
  next
    case True
    then have IH: "norm_up (n + PERIOD) = (if n + PERIOD < 0 then (n + PERIOD) mod PERIOD else n + PERIOD)"
      by (rule "1.IH")
    have step: "norm_up n = norm_up (n + PERIOD)"
      using True by (subst norm_up.simps) simp
    show ?thesis
    proof (cases "n + PERIOD < 0")
      case True
      with \<open>n < 0\<close> show ?thesis by (simp add: step IH)
    next
      case False
      then have "(n + PERIOD) mod PERIOD = n + PERIOD"
        using \<open>n < 0\<close> by (intro mod_pos_pos_trivial) simp_all
      then have "n mod PERIOD = n + PERIOD" by simp
      with False \<open>n < 0\<close> show ?thesis by (simp add: step IH)
    qed
  qed
qed

lemma norm_down_spec:
  "0 \<le> n \<Longrightarrow> 0 \<le> norm_down n \<and> norm_down n \<le> PERIOD \<and> norm_down n mod PERIOD = n mod PERIOD"
proof (induction n rule: norm_down.induct)
  case (1 n)
  show ?case
  proof (cases "n > PERIOD")
    case False
    with "1.prems" show ?thesis by (subst (1 2 3) norm_down.simps) simp
  next
    case True
    then have step: "norm_down n = norm_down (n - PERIOD)"
      by (subst norm_down.simps) simp
    from True have "0 \<le> n - PERIOD" by simp
    with True have "0 \<le> norm_down (n - PERIOD) \<and> norm_down (n - PERIOD) \<le> PERIOD
        \<and> norm_down (n - PERIOD) mod PERIOD = (n - PERIOD) mod PERIOD"
      by (intro "1.IH")
    then show ?thesis by (simp add: step)
  qed
qed

lemma norm_down_small: "n \<le> PERIOD \<Longrightarrow> norm_down n = n"
  by (subst norm_down.simps) simp

lemma normalised:
  "0 \<le> norm_down (norm_up n) \<and> norm_down (norm_up n) \<le> PERIOD
   \<and> norm_down (norm_up n) mod PERIOD = n mod PERIOD"
proof -
  have "0 \<le> norm_up n" and "norm_up n mod PERIOD = n mod PERIOD"
    using PERIOD_pos by (simp_all add: norm_up_eq)
  with norm_down_spec [of "norm_up n"] show ?thesis by simp
qed

lemma pw_1: "pw (Suc 0) = 2"
  using pw_small [of 1] by simp

lemma HPCC_starts_core:
  assumes "0 < a" and "int a \<le> PERIOD"
  shows "power_loop (find_top (int a) 62) (int a) m2_table 2 = pw a"
proof -
  from assms(2) have "a < 2 ^ Suc 62"
    by (simp add: PERIOD_def)
  from find_top_spec [OF assms(1) this] obtain t
    where "find_top (int a) (int 62) = int t" and "a div 2 ^ t = 1"
    by blast
  then show ?thesis
    using power_loop_pw [of t a] by (simp add: pw_1)
qed

lemma HPCC_starts_normal: "HPCC_starts n = pw (nat (norm_down (norm_up n)))"
proof (cases "norm_down (norm_up n) = 0")
  case True
  then show ?thesis by (simp add: HPCC_starts_def pw_0)
next
  case False
  define a where "a = nat (norm_down (norm_up n))"
  with False normalised [of n] have a: "int a = norm_down (norm_up n)" "0 < a" "int a \<le> PERIOD"
    by simp_all
  have "HPCC_starts n = power_loop (find_top (int a) 62) (int a) m2_table 2"
    using False by (simp add: HPCC_starts_def Let_def m2_table_def a(1))
  then show ?thesis
    using HPCC_starts_core [OF a(2,3)] by (simp add: a_def)
qed

lemma HPCC_starts_mod: "HPCC_starts n = pw (nat (n mod PERIOD))"
proof -
  define m where "m = norm_down (norm_up n)"
  with normalised [of n] have m: "0 \<le> m" "m mod PERIOD = n mod PERIOD"
    by simp_all
  have "pw (nat m) = pw (nat m mod 1317624576693539401)"
    by (rule pw_mod_period)
  also have "nat m mod 1317624576693539401 = nat (m mod PERIOD)"
    using m(1) by (simp add: nat_mod_distrib PERIOD_def)
  finally show ?thesis
    by (simp only: HPCC_starts_normal m_def [symmetric] m(2))
qed

lemma HPCC_starts_nonneg: "0 \<le> n \<Longrightarrow> HPCC_starts n = pw (nat n)"
proof -
  assume n: "0 \<le> n"
  have "pw (nat n) = pw (nat n mod 1317624576693539401)"
    by (rule pw_mod_period)
  also have "nat n mod 1317624576693539401 = nat (n mod PERIOD)"
    using n by (simp add: nat_mod_distrib PERIOD_def)
  finally show ?thesis
    by (simp only: HPCC_starts_mod)
qed

subsection \<open>The loops of the updater as folds\<close>

lemma unat_succ:
  fixes i b :: u64
  assumes "i < b"
  shows "unat (i + 1) = Suc (unat i)"
proof -
  from assms have "unat i < unat b"
    by (simp add: word_less_nat_alt)
  moreover have "unat b < 2 ^ 64"
    using unsigned_less [of b, where ?'a = nat] by simp
  ultimately have "unat i + unat (1 :: u64) < 2 ^ LENGTH(64)"
    by simp
  then show ?thesis
    using unat_add_lem [of i 1] by simp
qed

lemma init_streams_step:
  "j < 128 \<Longrightarrow>
   init_streams j TableSize rn = init_streams (Suc j) TableSize (rn[j := stream_start TableSize j])"
  by (subst init_streams.simps) (simp add: stream_start_def)

lemma init_streams_done: "128 \<le> j \<Longrightarrow> init_streams j TableSize rn = rn"
  by (subst init_streams.simps) simp

lemma init_streams_length: "length (init_streams j TableSize rn) = length rn"
proof (induction "128 - j" arbitrary: j rn)
  case 0
  then show ?case by (simp add: init_streams_done)
next
  case (Suc d)
  then have j: "j < 128" and d: "d = 128 - Suc j" by simp_all
  show ?case
    by (simp add: init_streams_step [OF j] Suc.hyps(1) [OF d])
qed

lemma init_streams_nth:
  "length rn = 128 \<Longrightarrow> k < 128 \<Longrightarrow>
   init_streams j TableSize rn ! k = (if k < j then rn ! k else stream_start TableSize k)"
proof (induction "128 - j" arbitrary: j rn)
  case 0
  then show ?case by (simp add: init_streams_done)
next
  case (Suc d)
  then have j: "j < 128" and d: "d = 128 - Suc j" by simp_all
  have IH: "init_streams (Suc j) TableSize (rn[j := stream_start TableSize j]) ! k =
      (if k < Suc j then rn[j := stream_start TableSize j] ! k else stream_start TableSize k)"
    using Suc.hyps(1) [OF d, of "rn[j := stream_start TableSize j]"] Suc.prems by simp
  show ?case
    using Suc.prems j IH
    by (cases "k = j") (auto simp add: init_streams_step [OF j])
qed

lemma init_streams_eq:
  "init_streams 0 TableSize (replicate 128 0) = map (stream_start TableSize) [0..<128]"
  by (rule nth_equalityI) (simp_all add: init_streams_length init_streams_nth)

lemma update_streams_step:
  "j < 128 \<Longrightarrow>
   update_streams j TableSize (rn, Table) =
     update_streams (Suc j) TableSize
       (rn[j := lfsr_next (rn ! j)],
        xor_update TableSize (rn[j := lfsr_next (rn ! j)] ! j) Table)"
  by (subst update_streams.simps) (simp add: Let_def)

lemma update_streams_done: "128 \<le> j \<Longrightarrow> update_streams j TableSize (rn, Table) = (rn, Table)"
  by (subst update_streams.simps) simp

lemma update_streams_fold:
  "length rn = 128 \<Longrightarrow> j \<le> 128 \<Longrightarrow>
   update_streams j TableSize (rn, Table) =
     (take j rn @ map lfsr_next (drop j rn),
      fold (xor_update TableSize) (map lfsr_next (drop j rn)) Table)"
proof (induction "128 - j" arbitrary: j rn Table)
  case 0
  then show ?case by (simp add: update_streams_done)
next
  case (Suc d)
  then have j: "j < 128" and d: "d = 128 - Suc j" and len: "length rn = 128"
    by simp_all
  let ?x = "lfsr_next (rn ! j)"
  let ?rn = "rn[j := ?x]"
  have at_j: "?rn ! j = ?x"
    using j len by simp
  have dr: "drop (Suc j) ?rn = drop (Suc j) rn"
    by simp
  have tk: "take (Suc j) ?rn = take j rn @ [?x]"
    using j len by (simp add: take_Suc_conv_app_nth)
  have dj: "drop j rn = rn ! j # drop (Suc j) rn"
    using j len by (simp add: Cons_nth_drop_Suc)
  have "update_streams j TableSize (rn, Table) =
      update_streams (Suc j) TableSize (?rn, xor_update TableSize ?x Table)"
    by (simp only: update_streams_step [OF j] at_j)
  also have "\<dots> = (take (Suc j) ?rn @ map lfsr_next (drop (Suc j) ?rn),
      fold (xor_update TableSize) (map lfsr_next (drop (Suc j) ?rn))
        (xor_update TableSize ?x Table))"
    using j len by (intro Suc.hyps(1) [OF d]) simp_all
  also have "\<dots> = (take j rn @ map lfsr_next (drop j rn),
      fold (xor_update TableSize) (map lfsr_next (drop j rn)) Table)"
    by (simp only: dr tk dj) simp
  finally show ?case .
qed

lemma update_streams_all:
  "length rn = 128 \<Longrightarrow>
   update_streams 0 TableSize (rn, Table) =
     (map lfsr_next rn, fold (xor_update TableSize) (map lfsr_next rn) Table)"
  using update_streams_fold [of rn 0 TableSize Table] by simp

lemma update_rounds:
  "length rn = 128 \<Longrightarrow>
   (update_streams 0 TableSize ^^ m) (rn, Table) =
     (map (lfsr_next ^^ m) rn,
      fold (xor_update TableSize)
        (concat (map (\<lambda>i. map (lfsr_next ^^ Suc i) rn) [0..<m])) Table)"
proof (induction m)
  case 0
  show ?case by simp
next
  case (Suc m)
  have len: "length (map (lfsr_next ^^ m) rn) = 128"
    using Suc.prems by simp
  show ?case
    by (simp add: Suc.IH [OF Suc.prems] update_streams_all [OF len] comp_def)
qed

lemma update_loop_funpow:
  "unat i \<le> unat (NUPDATE TableSize div 128) \<Longrightarrow>
   update_loop i TableSize s =
     (update_streams 0 TableSize ^^ (unat (NUPDATE TableSize div 128) - unat i)) s"
proof (induction "unat (NUPDATE TableSize div 128) - unat i" arbitrary: i s)
  case 0
  then have "\<not> i < NUPDATE TableSize div 128"
    by (simp add: word_less_nat_alt)
  with 0 show ?case
    by (subst update_loop.simps) simp
next
  case (Suc d)
  then have lt: "i < NUPDATE TableSize div 128"
    by (simp add: word_less_nat_alt)
  have su: "unat (i + 1) = Suc (unat i)"
    using lt by (rule unat_succ)
  with Suc have d: "d = unat (NUPDATE TableSize div 128) - unat (i + 1)"
    and le: "unat (i + 1) \<le> unat (NUPDATE TableSize div 128)"
    by simp_all
  have "update_loop i TableSize s = update_loop (i + 1) TableSize (update_streams 0 TableSize s)"
    using lt by (subst update_loop.simps) simp
  also have "\<dots> = (update_streams 0 TableSize ^^ d) (update_streams 0 TableSize s)"
    using Suc.hyps(1) [OF d le] d by simp
  also have "\<dots> = (update_streams 0 TableSize ^^ Suc d) s"
    by (simp add: funpow_swap1)
  finally show ?case
    using Suc.hyps(2) by simp
qed

lemma RandomAccessUpdate_fold:
  "RandomAccessUpdate TableSize Table =
     fold (xor_update TableSize)
       (concat (map (\<lambda>i. map (\<lambda>j. (lfsr_next ^^ Suc i) (stream_start TableSize j)) [0..<128])
          [0..<unat (NUPDATE TableSize div 128)])) Table"
proof -
  have len: "length (map (stream_start TableSize) [0..<128]) = 128"
    by simp
  show ?thesis
    unfolding RandomAccessUpdate_def init_streams_eq
    using update_loop_funpow [of 0 TableSize] update_rounds [OF len]
    by (simp add: comp_def)
qed

lemma verify_loop_fold:
  "unat i \<le> unat (NUPDATE TableSize) \<Longrightarrow>
   verify_loop i TableSize (temp, Table) =
     ((lfsr_next ^^ (unat (NUPDATE TableSize) - unat i)) temp,
      fold (xor_update TableSize)
        (map (\<lambda>m. (lfsr_next ^^ Suc m) temp) [0..<unat (NUPDATE TableSize) - unat i]) Table)"
proof (induction "unat (NUPDATE TableSize) - unat i" arbitrary: i temp Table)
  case 0
  then have "\<not> i < NUPDATE TableSize"
    by (simp add: word_less_nat_alt)
  with 0 show ?case
    by (subst verify_loop.simps) simp
next
  case (Suc d)
  then have lt: "i < NUPDATE TableSize"
    by (simp add: word_less_nat_alt)
  have su: "unat (i + 1) = Suc (unat i)"
    using lt by (rule unat_succ)
  with Suc have d: "d = unat (NUPDATE TableSize) - unat (i + 1)"
    and le: "unat (i + 1) \<le> unat (NUPDATE TableSize)"
    by simp_all
  have shift: "map (\<lambda>m. (lfsr_next ^^ Suc m) temp) [0..<Suc d] =
      lfsr_next temp # map (\<lambda>m. (lfsr_next ^^ Suc m) (lfsr_next temp)) [0..<d]"
    by (subst map_upt_Suc) (simp add: funpow_swap1)
  have "verify_loop i TableSize (temp, Table) =
      verify_loop (i + 1) TableSize (lfsr_next temp, xor_update TableSize (lfsr_next temp) Table)"
    using lt by (subst verify_loop.simps) (simp add: Let_def)
  also have "\<dots> = ((lfsr_next ^^ d) (lfsr_next temp),
      fold (xor_update TableSize)
        (map (\<lambda>m. (lfsr_next ^^ Suc m) (lfsr_next temp)) [0..<d])
        (xor_update TableSize (lfsr_next temp) Table))"
    using Suc.hyps(1) [OF d le] d by simp
  also have "\<dots> = ((lfsr_next ^^ Suc d) temp,
      fold (xor_update TableSize) (map (\<lambda>m. (lfsr_next ^^ Suc m) temp) [0..<Suc d]) Table)"
    by (simp only: shift) (simp add: funpow_swap1)
  finally show ?case
    using Suc.hyps(2) by simp
qed

lemma scalar_update_fold:
  "scalar_update TableSize Table =
     fold (xor_update TableSize) (map (\<lambda>m. pw (Suc m)) [0..<unat (NUPDATE TableSize)]) Table"
  using verify_loop_fold [of 0 TableSize 1 Table] by (simp add: scalar_update_def pw_def)

subsection \<open>XOR updates commute and cancel\<close>

lemma xor_update_commute:
  "xor_update TableSize x (xor_update TableSize y Table) =
   xor_update TableSize y (xor_update TableSize x Table)"
proof -
  define a where "a = unat (masked_index TableSize x)"
  define b where "b = unat (masked_index TableSize y)"
  have "Table[b := Table ! b XOR y, a := Table[b := Table ! b XOR y] ! a XOR x] =
        Table[a := Table ! a XOR x, b := Table[a := Table ! a XOR x] ! b XOR y]"
  proof (cases "a = b")
    case False
    then show ?thesis
      by (simp add: list_update_swap)
  next
    case True
    show ?thesis
    proof (cases "a < length Table")
      case True
      with \<open>a = b\<close> show ?thesis
        by (simp add: ac_simps)
    next
      case False
      with \<open>a = b\<close> show ?thesis
        by (simp add: list_update_beyond)
    qed
  qed
  then show ?thesis
    by (simp add: xor_update_def Let_def a_def b_def)
qed

lemma xor_update_twice: "xor_update TableSize x (xor_update TableSize x Table) = Table"
proof -
  define a where "a = unat (masked_index TableSize x)"
  have "Table[a := Table ! a XOR x, a := Table[a := Table ! a XOR x] ! a XOR x] = Table"
    by (cases "a < length Table") (simp_all add: xor.assoc list_update_beyond)
  then show ?thesis
    by (simp add: xor_update_def Let_def a_def)
qed


lemma fold_xor_update_perm:
  "mset xs = mset ys \<Longrightarrow>
   fold (xor_update TableSize) xs Table = fold (xor_update TableSize) ys Table"
proof -
  assume "mset xs = mset ys"
  then have "fold (xor_update TableSize) xs = fold (xor_update TableSize) ys"
    by (intro fold_multiset_equiv) (auto simp add: fun_eq_iff xor_update_commute)
  then show ?thesis by simp
qed

lemma fold_xor_update_twice:
  "fold (xor_update TableSize) xs (fold (xor_update TableSize) xs Table) = Table"
proof (induction xs arbitrary: Table)
  case Nil
  show ?case by simp
next
  case (Cons x xs)
  have "fold (xor_update TableSize) (x # xs) (fold (xor_update TableSize) (x # xs) Table) =
        fold (xor_update TableSize) ((x # xs) @ (x # xs)) Table"
    by simp
  also have "\<dots> = fold (xor_update TableSize) (x # x # xs @ xs) Table"
    by (rule fold_xor_update_perm) simp
  also have "\<dots> = fold (xor_update TableSize) (xs @ xs) Table"
    by (simp add: xor_update_twice)
  also have "\<dots> = Table"
    using Cons.IH [of Table] by simp
  finally show ?case .
qed

subsection \<open>The interleaved order is a permutation of the serial order\<close>

lemma interleaved_length: "length (interleaved S K) = S * K"
  by (simp add: interleaved_def length_concat comp_def sum_list_triv)

lemma interleaved_set: "set (interleaved S K) = {0..<S * K}"
proof
  show "set (interleaved S K) \<subseteq> {0..<S * K}"
  proof
    fix x
    assume "x \<in> set (interleaved S K)"
    then obtain i j where "i < K" and "j < S" and x: "x = i + K * j"
      by (auto simp add: interleaved_def)
    have "K * Suc j \<le> K * S"
      using \<open>j < S\<close> by (intro mult_le_mono2) simp
    with \<open>i < K\<close> have "i + K * j < S * K"
      by (simp add: mult.commute)
    with x show "x \<in> {0..<S * K}" by simp
  qed
  show "{0..<S * K} \<subseteq> set (interleaved S K)"
  proof
    fix x
    assume "x \<in> {0..<S * K}"
    then have lt: "x < S * K" by simp
    then have "0 < K" by (cases K) simp_all
    then have "x mod K < K" by simp
    moreover from lt have "x div K < S"
      by (simp add: less_mult_imp_div_less)
    moreover have "x = x mod K + K * (x div K)"
      by simp
    ultimately show "x \<in> set (interleaved S K)"
      unfolding interleaved_def by (auto intro!: bexI [of _ "x mod K"] image_eqI [of _ _ "x div K"])
  qed
qed

lemma interleaved_mset: "mset (interleaved S K) = mset [0..<S * K]"
proof -
  have "card (set (interleaved S K)) = length (interleaved S K)"
    by (simp add: interleaved_set interleaved_length)
  then have "distinct (interleaved S K)"
    by (rule card_distinct)
  then show ?thesis
    using set_eq_iff_mset_eq_distinct [of "interleaved S K" "[0..<S * K]"]
    by (simp add: interleaved_set)
qed

lemma map_interleaved:
  "map f (interleaved S K) = concat (map (\<lambda>i. map (\<lambda>j. f (i + K * j)) [0..<S]) [0..<K])"
  by (simp add: interleaved_def map_concat comp_def)

subsection \<open>Table sizes that are powers of two\<close>

lemma unat_of_nat_small: "m < 2 ^ 64 \<Longrightarrow> unat (word_of_nat m :: u64) = m"
  by (simp add: unat_of_nat)

lemma sint_of_nat_small:
  assumes "m < 2 ^ 63"
  shows "sint (word_of_nat m :: u64) = int m"
proof -
  have "signed_take_bit 63 (int m) = int m"
  proof (rule signed_take_bit_int_eq_self)
    show "- (2 ^ 63) \<le> int m" by simp
    from assms have "int m < int (2 ^ 63)" by (simp only: of_nat_less_iff)
    then show "int m < 2 ^ 63" by simp
  qed
  then show ?thesis
    by (simp add: signed_of_nat)
qed

lemma NUPDATE_pow: "NUPDATE (2 ^ k) = word_of_nat (2 ^ (k + 2))"
  by (simp add: NUPDATE_def)

lemma NUPDATE_wraps: "62 \<le> k \<Longrightarrow> NUPDATE (2 ^ k) = 0"
proof -
  assume "62 \<le> k"
  then have "(2 :: u64) ^ (k + 2) = 0"
    using exp_eq_zero_iff [where ?'a = 64, of "k + 2"] by simp
  moreover have "(4 :: u64) * 2 ^ k = 2 ^ (k + 2)"
    by (simp add: power_add)
  ultimately show ?thesis
    by (simp only: NUPDATE_def)
qed

lemma unat_NUPDATE_pow: "k \<le> 61 \<Longrightarrow> unat (NUPDATE (2 ^ k)) = 2 ^ (k + 2)"
proof -
  assume "k \<le> 61"
  then have "(2 :: nat) ^ (k + 2) < 2 ^ 64"
    by (intro power_strict_increasing) simp_all
  then show ?thesis
    by (simp only: NUPDATE_pow unat_of_nat_small)
qed

lemma pow_split: "5 \<le> k \<Longrightarrow> (2 :: nat) ^ (k + 2) = 128 * 2 ^ (k - 5)"
proof -
  assume "5 \<le> k"
  then have "k + 2 = 7 + (k - 5)"
    by simp
  then have "(2 :: nat) ^ (k + 2) = 2 ^ 7 * 2 ^ (k - 5)"
    by (simp only: power_add)
  then show ?thesis by simp
qed

lemma rounds_pow:
  assumes "5 \<le> k" and "k \<le> 61"
  shows "unat (NUPDATE (2 ^ k) div 128) = 2 ^ (k - 5)"
proof -
  have "(2 :: nat) ^ (k + 2) div 128 = 2 ^ (k - 5)"
    by (simp only: pow_split [OF assms(1)])
  then show ?thesis
    by (simp add: unat_div unat_NUPDATE_pow [OF assms(2)])
qed

lemma stream_start_pow:
  assumes "5 \<le> k" and "k \<le> 61" and "j < 128"
  shows "stream_start (2 ^ k) j = pw (2 ^ (k - 5) * j)"
proof -
  let ?K = "NUPDATE (2 ^ k) div 128"
  have "?K = word_of_nat (unat ?K)"
    by simp
  then have "?K = word_of_nat (2 ^ (k - 5))"
    by (simp only: rounds_pow [OF assms(1,2)])
  then have prod: "?K * word_of_nat j = word_of_nat (2 ^ (k - 5) * j)"
    by (simp only: of_nat_mult)
  have "(2 :: nat) ^ (k - 5) * j < 2 ^ (k - 5) * 128"
    using assms(3) by simp
  also have "\<dots> = 2 ^ (k - 5) * 2 ^ 7"
    by simp
  also have "\<dots> = 2 ^ (k - 5 + 7)"
    by (simp only: power_add)
  also have "\<dots> \<le> 2 ^ 63"
    using assms(2) by (intro power_increasing) simp_all
  finally have "sint (word_of_nat (2 ^ (k - 5) * j) :: u64) = int (2 ^ (k - 5) * j)"
    by (rule sint_of_nat_small)
  then show ?thesis
    unfolding stream_start_def prod by (simp only: HPCC_starts_nonneg of_nat_0_le_iff nat_int)
qed

subsection \<open>The interleaved update equals the scalar loop\<close>

lemma RandomAccessUpdate_values:
  assumes "5 \<le> k" and "k \<le> 61"
  shows "RandomAccessUpdate (2 ^ k) Table =
     fold (xor_update (2 ^ k)) (map (\<lambda>x. pw (Suc x)) (interleaved 128 (2 ^ (k - 5)))) Table"
proof -
  have inner: "map (\<lambda>j. (lfsr_next ^^ Suc i) (stream_start (2 ^ k) j)) [0..<128] =
      map (\<lambda>j. pw (Suc (i + 2 ^ (k - 5) * j))) [0..<128]" for i
  proof (rule map_cong [OF refl])
    fix j
    assume "j \<in> set [0..<128]"
    then have "j < 128" by simp
    then have "stream_start (2 ^ k) j = pw (2 ^ (k - 5) * j)"
      by (rule stream_start_pow [OF assms])
    then have "(lfsr_next ^^ Suc i) (stream_start (2 ^ k) j) = pw (Suc i + 2 ^ (k - 5) * j)"
      by (simp only: pw_add)
    then show "(lfsr_next ^^ Suc i) (stream_start (2 ^ k) j) = pw (Suc (i + 2 ^ (k - 5) * j))"
      by simp
  qed
  show ?thesis
    by (simp only: RandomAccessUpdate_fold rounds_pow [OF assms] inner map_interleaved)
qed

lemma update_equiv_small:
  assumes "5 \<le> k" and "k \<le> 61"
  shows "RandomAccessUpdate (2 ^ k) Table = scalar_update (2 ^ k) Table"
proof -
  have n: "unat (NUPDATE (2 ^ k)) = 128 * 2 ^ (k - 5)"
    by (simp only: unat_NUPDATE_pow [OF assms(2)] pow_split [OF assms(1)])
  have "mset (map (\<lambda>x. pw (Suc x)) (interleaved 128 (2 ^ (k - 5)))) =
        mset (map (\<lambda>x. pw (Suc x)) [0..<128 * 2 ^ (k - 5)])"
    by (simp only: mset_map interleaved_mset)
  then show ?thesis
    by (simp only: RandomAccessUpdate_values [OF assms] scalar_update_fold n)
      (rule fold_xor_update_perm)
qed

lemma update_equiv_wrapped:
  assumes "62 \<le> k"
  shows "RandomAccessUpdate (2 ^ k) Table = Table" and "scalar_update (2 ^ k) Table = Table"
  by (simp_all add: RandomAccessUpdate_fold scalar_update_fold NUPDATE_wraps [OF assms])

lemma update_equiv: "5 \<le> k \<Longrightarrow> RandomAccessUpdate (2 ^ k) Table = scalar_update (2 ^ k) Table"
proof (cases "k \<le> 61")
  case True
  assume "5 \<le> k"
  then show ?thesis using True by (rule update_equiv_small)
next
  case False
  then have "62 \<le> k" by simp
  then show ?thesis by (simp only: update_equiv_wrapped)
qed

subsection \<open>The driver\<close>

lemma size_loop_more:
  "1 \<le> t \<Longrightarrow> size_loop t l s = size_loop (t * 0.5) (l + 1) (push_bit 1 s)"
  by (subst size_loop.simps) simp

lemma size_loop_stop: "t < 1 \<Longrightarrow> size_loop t l s = (t, l, s)"
  by (subst size_loop.simps) simp

text \<open>
  The loop counts doublings while the halved value is at least 1: started at \<open>W / 2\<close> it
  stops at the largest power of two that is not above \<open>W\<close>. The halving before the
  first test is what makes the count the exponent of that power.
\<close>

lemma size_loop_runs:
  "t < 2 ^ m \<Longrightarrow> (m = 0 \<or> 2 ^ (m - 1) \<le> t) \<Longrightarrow>
   size_loop t l s = (t / 2 ^ m, l + word_of_nat m, push_bit m s)"
proof (induction m arbitrary: t l s)
  case 0
  then show ?case by (simp add: size_loop_stop)
next
  case (Suc m)
  then have ge: "2 ^ m \<le> t" and lt: "t < 2 * 2 ^ m"
    by simp_all
  have "(1 :: real) \<le> 2 ^ m"
    by simp
  with ge have one: "1 \<le> t"
    by linarith
  from lt have lt': "t * 0.5 < 2 ^ m"
    by simp
  have ge': "m = 0 \<or> 2 ^ (m - 1) \<le> t * 0.5"
  proof (cases m)
    case 0
    then show ?thesis by simp
  next
    case (Suc j)
    with ge show ?thesis by simp
  qed
  have "size_loop t l s = size_loop (t * 0.5) (l + 1) (push_bit 1 s)"
    using one by (rule size_loop_more)
  also have "\<dots> = (t * 0.5 / 2 ^ m, l + 1 + word_of_nat m, push_bit m (push_bit 1 s))"
    using lt' ge' by (rule Suc.IH)
  finally show ?case
    by (simp add: push_bit_eq_mult algebra_simps)
qed

lemma size_loop_floor_log:
  assumes "2 ^ m \<le> W" and "W < 2 * 2 ^ m"
  shows "size_loop (W * 0.5) 0 1 = (W / 2 ^ Suc m, word_of_nat m, 2 ^ m)"
proof -
  from assms(2) have lt: "W * 0.5 < 2 ^ m"
    by simp
  have ge: "m = 0 \<or> 2 ^ (m - 1) \<le> W * 0.5"
  proof (cases m)
    case 0
    then show ?thesis by simp
  next
    case (Suc j)
    with assms(1) show ?thesis by simp
  qed
  show ?thesis
    using size_loop_runs [OF lt ge, of 0 1] by (simp add: push_bit_eq_mult)
qed

lemma table_sizing_value: "table_sizing = (1 / 2, 29, 536870912)"
  by (simp add: table_sizing_def Let_def size_loop_more size_loop_stop)

lemma init_table_step:
  "i < TableSize \<Longrightarrow> init_table i TableSize Table = init_table (i + 1) TableSize (Table[unat i := i])"
  by (subst init_table.simps) simp

lemma init_table_stop: "\<not> i < TableSize \<Longrightarrow> init_table i TableSize Table = Table"
  by (subst init_table.simps) simp

lemma init_table_spec:
  "unat i \<le> unat TableSize \<Longrightarrow> length Table = unat TableSize \<Longrightarrow>
   length (init_table i TableSize Table) = unat TableSize \<and>
   (\<forall>k < unat TableSize. init_table i TableSize Table ! k =
      (if unat i \<le> k then word_of_nat k else Table ! k))"
proof (induction "unat TableSize - unat i" arbitrary: i Table)
  case 0
  then have "\<not> i < TableSize"
    by (simp add: word_less_nat_alt)
  with 0 show ?case
    by (simp add: init_table_stop)
next
  case (Suc d)
  then have lt: "i < TableSize"
    by (simp add: word_less_nat_alt)
  have su: "unat (i + 1) = Suc (unat i)"
    using lt by (rule unat_succ)
  with Suc have d: "d = unat TableSize - unat (i + 1)"
    and le: "unat (i + 1) \<le> unat TableSize"
    and len: "length (Table[unat i := i]) = unat TableSize"
    and in_range: "unat i < length Table"
    by simp_all
  have self: "word_of_nat (unat i) = i"
    by simp
  from Suc.hyps(1) [OF d le len]
  have IH: "length (init_table (i + 1) TableSize (Table[unat i := i])) = unat TableSize"
    "\<And>k. k < unat TableSize \<Longrightarrow>
       init_table (i + 1) TableSize (Table[unat i := i]) ! k =
       (if Suc (unat i) \<le> k then word_of_nat k else Table[unat i := i] ! k)"
    by (simp_all add: su)
  show ?case
  proof (intro conjI allI impI)
    show "length (init_table i TableSize Table) = unat TableSize"
      by (simp only: init_table_step [OF lt] IH(1))
  next
    fix k
    assume k: "k < unat TableSize"
    show "init_table i TableSize Table ! k = (if unat i \<le> k then word_of_nat k else Table ! k)"
    proof (cases "k = unat i")
      case True
      with k have "unat i < unat TableSize"
        by simp
      from IH(2) [OF this]
      have "init_table (i + 1) TableSize (Table[unat i := i]) ! unat i = Table[unat i := i] ! unat i"
        by simp
      also have "\<dots> = i"
        using in_range by simp
      finally show ?thesis
        using True by (simp add: init_table_step [OF lt])
    next
      case False
      then show ?thesis
        by (auto simp add: init_table_step [OF lt] IH(2) [OF k])
    qed
  qed
qed

lemma init_table_identity:
  assumes "length block = unat TableSize"
  shows "init_table 0 TableSize block = map word_of_nat [0..<unat TableSize]"
proof (rule nth_equalityI)
  show "length (init_table 0 TableSize block) = length (map word_of_nat [0..<unat TableSize])"
    using init_table_spec [of 0 TableSize block] assms by simp
next
  fix k
  assume "k < length (init_table 0 TableSize block)"
  then have "k < unat TableSize"
    using init_table_spec [of 0 TableSize block] assms by simp
  then show "init_table 0 TableSize block ! k = map word_of_nat [0..<unat TableSize] ! k"
    using init_table_spec [of 0 TableSize block] assms by simp
qed

lemma mismatches_identity: "mismatches (map word_of_nat [0..<n]) = {}"
  by (auto simp add: mismatches_def)

lemma count_errors_step:
  "i < TableSize \<Longrightarrow>
   count_errors i TableSize Table temp =
     count_errors (i + 1) TableSize Table (if Table ! unat i \<noteq> i then temp + 1 else temp)"
  by (subst count_errors.simps) simp

lemma count_errors_stop: "\<not> i < TableSize \<Longrightarrow> count_errors i TableSize Table temp = temp"
  by (subst count_errors.simps) simp

lemma count_errors_spec:
  "unat i \<le> unat TableSize \<Longrightarrow> length Table = unat TableSize \<Longrightarrow>
   count_errors i TableSize Table temp =
     temp + word_of_nat (card {j \<in> mismatches Table. unat i \<le> j})"
proof (induction "unat TableSize - unat i" arbitrary: i temp)
  case 0
  then have stop: "\<not> i < TableSize"
    by (simp add: word_less_nat_alt)
  from 0 have "{j \<in> mismatches Table. unat i \<le> j} = {}"
    by (auto simp add: mismatches_def)
  then have "card {j \<in> mismatches Table. unat i \<le> j} = 0"
    by (simp only: card.empty)
  then show ?case
    by (simp only: count_errors_stop [OF stop]) simp
next
  case (Suc d)
  then have lt: "i < TableSize"
    by (simp add: word_less_nat_alt)
  have su: "unat (i + 1) = Suc (unat i)"
    using lt by (rule unat_succ)
  with Suc have d: "d = unat TableSize - unat (i + 1)"
    and le: "unat (i + 1) \<le> unat TableSize"
    and in_range: "unat i < length Table"
    by simp_all
  let ?rest = "{j \<in> mismatches Table. Suc (unat i) \<le> j}"
  have fin: "finite ?rest"
    by (simp add: mismatches_def)
  have notin: "unat i \<notin> ?rest"
    by simp
  have self: "word_of_nat (unat i) = i"
    by simp
  have split: "{j \<in> mismatches Table. unat i \<le> j} =
      (if Table ! unat i \<noteq> i then insert (unat i) ?rest else ?rest)"
    using in_range self by (auto simp add: mismatches_def Suc_le_eq le_less)
  have "count_errors i TableSize Table temp =
      (if Table ! unat i \<noteq> i then temp + 1 else temp) + word_of_nat (card ?rest)"
    using Suc.hyps(1) [OF d le Suc.prems(2)] by (simp only: count_errors_step [OF lt] su)
  also have "\<dots> = temp + word_of_nat (card {j \<in> mismatches Table. unat i \<le> j})"
    using fin notin by (simp add: split)
  finally show ?case .
qed

lemma count_errors_card:
  assumes "length Table = unat TableSize"
  shows "unat (count_errors 0 TableSize Table 0) = card (mismatches Table)"
proof -
  have "card (mismatches Table) \<le> card {i. i < length Table}"
    by (intro card_mono) (auto simp add: mismatches_def)
  then have "card (mismatches Table) \<le> unat TableSize"
    using assms by simp
  moreover have "unat TableSize < 2 ^ 64"
    using unsigned_less [of TableSize, where ?'a = nat] by simp
  ultimately have "card (mismatches Table) < 2 ^ 64"
    by simp
  then have "unat (word_of_nat (card (mismatches Table)) :: u64) = card (mismatches Table)"
    by (rule unat_of_nat_small)
  then show ?thesis
    using count_errors_spec [of 0 TableSize Table 0] assms by simp
qed

lemma compute_GUPs_value:
  "compute_GUPs realtime nupdate =
     Inr ((if realtime > 0 then 1 / realtime else - 1) * (0.000000001 * real (unat nupdate)))"
  by (simp add: compute_GUPs_def checked_div_def)

lemma run_benchmark_report:
  "run_benchmark logTableSize TableSize block t0 t1 =
     Exited 0 \<lparr> shown_logTableSize = logTableSize,
                shown_TableSize = TableSize,
                shown_updates = NUPDATE TableSize,
                shown_realtime = t1 - t0,
                shown_GUPs = (if t1 - t0 > 0 then 1 / (t1 - t0) else - 1)
                              * (0.000000001 * real (unat (NUPDATE TableSize))),
                shown_errors =
                  count_errors 0 TableSize
                    (scalar_update TableSize
                       (RandomAccessUpdate TableSize (init_table 0 TableSize block))) 0,
                shown_verdict =
                  verdict_of
                    (count_errors 0 TableSize
                       (scalar_update TableSize
                          (RandomAccessUpdate TableSize (init_table 0 TableSize block))) 0)
                    TableSize \<rparr>"
  unfolding run_benchmark_def Let_def compute_GUPs_value scalar_update_def
  by (simp only: sum.case)

lemma main_runs:
  "main (Some block) t0 t1 = run_benchmark 29 536870912 block t0 t1"
  by (simp only: main_def table_sizing_value prod.case option.case)

lemma pipeline_restores:
  assumes "5 \<le> k" and "length block = unat ((2 :: u64) ^ k)"
  shows "scalar_update (2 ^ k) (RandomAccessUpdate (2 ^ k) (init_table 0 (2 ^ k) block)) =
         map word_of_nat [0..<unat ((2 :: u64) ^ k)]"
  by (simp only: update_equiv [OF assms(1)] scalar_update_fold fold_xor_update_twice
      init_table_identity [OF assms(2)])

lemma shift53_small: "n < 2 ^ 53 \<Longrightarrow> shift53 n = 0"
  by (subst shift53.simps) simp

lemma shift53_large: "\<not> n < 2 ^ 53 \<Longrightarrow> shift53 n = Suc (shift53 (n div 2))"
  by (subst shift53.simps) simp

lemma round53_small: "n < 2 ^ 53 \<Longrightarrow> round53 n = n"
  by (simp add: round53_def shift53_small)

lemma verdict_of_zero: "verdict_of 0 TableSize = ''passed''"
  by (simp add: verdict_of_def double_of_u64_def tolerance_def round53_small)

lemma count_errors_identity:
  "count_errors 0 TableSize (map word_of_nat [0..<unat TableSize]) 0 = 0"
proof -
  have "unat (count_errors 0 TableSize (map word_of_nat [0..<unat TableSize]) 0) = 0"
    by (subst count_errors_card) (simp_all add: mismatches_identity)
  then show ?thesis
    by (simp add: unsigned_eq_0_iff)
qed

lemma main_GUPs:
  "map_option shown_GUPs (printed (main (Some block) t0 t1)) =
     Some ((if t1 - t0 > 0 then 1 / (t1 - t0) else - 1) * 2.147483648)"
  by (simp add: main_runs run_benchmark_report printed_def NUPDATE_def)

lemma main_passes:
  assumes "length block = 536870912"
  shows "map_option shown_errors (printed (main (Some block) t0 t1)) = Some 0"
    and "map_option shown_verdict (printed (main (Some block) t0 t1)) = Some ''passed''"
proof -
  have k: "(5 :: nat) \<le> 29"
    by simp
  have len: "length block = unat ((2 :: u64) ^ 29)"
    using assms by simp
  have "scalar_update (2 ^ 29) (RandomAccessUpdate (2 ^ 29) (init_table 0 (2 ^ 29) block)) =
      map word_of_nat [0..<unat ((2 :: u64) ^ 29)]"
    using k len by (rule pipeline_restores)
  then have zero: "count_errors 0 (2 ^ 29)
      (scalar_update (2 ^ 29) (RandomAccessUpdate (2 ^ 29) (init_table 0 (2 ^ 29) block))) 0 = 0"
    by (simp only: count_errors_identity)
  have p: "(536870912 :: u64) = 2 ^ 29"
    by simp
  show "map_option shown_errors (printed (main (Some block) t0 t1)) = Some 0"
    unfolding main_runs run_benchmark_report p zero by (simp add: printed_def)
  show "map_option shown_verdict (printed (main (Some block) t0 t1)) = Some ''passed''"
    unfolding main_runs run_benchmark_report p zero by (simp add: printed_def verdict_of_zero)
qed


subsection \<open>The verdict on tables of a power of two of words\<close>

lemma shift53_scaled: "shift53 (5764607523034235 * 2 ^ k) = k"
proof (induction k)
  case 0
  show ?case by (simp add: shift53_small)
next
  case (Suc k)
  have "(2 :: nat) ^ 53 \<le> 5764607523034235 * 2"
    by simp
  also have "\<dots> \<le> 5764607523034235 * 2 * 2 ^ k"
    by simp
  finally have big: "\<not> 5764607523034235 * 2 ^ Suc k < (2 :: nat) ^ 53"
    by simp
  have "(5764607523034235 * 2 ^ Suc k) div 2 = (5764607523034235 * 2 ^ k :: nat)"
    by simp
  then show ?case
    by (simp only: shift53_large [OF big] Suc.IH)
qed

lemma round53_scaled: "round53 (5764607523034235 * 2 ^ k) = 5764607523034235 * 2 ^ k"
  by (simp add: round53_def shift53_scaled)




subsection \<open>What a run reports\<close>






subsection \<open>A run whose verification fails\<close>



text \<open>
  On very large tables the \<^verbatim>\<open>double\<close> test and the exact comparison part: a count of
  5764607523034235 in \<open>2^59\<close> words is above one hundredth of the size, and the test of
  the code still succeeds, because the \<^verbatim>\<open>double\<close> nearest to 0.01 is a little above it.
\<close>

lemma verdict_on_huge_table:
  "verdict_of 5764607523034235 (2 ^ 59) = ''passed''
   \<and> \<not> real (unat (5764607523034235 :: u64)) \<le> 0.01 * real (unat ((2 :: u64) ^ 59))"
proof -
  have t: "round53 (unat ((2 :: u64) ^ 59)) = 2 ^ 59"
    by (simp add: round53_def shift53_small shift53_large)
  have "tolerance (2 ^ 59) = real (5764607523034235 * 2 ^ 59) / 2 ^ 59"
    by (simp only: tolerance_def t round53_scaled)
  moreover have "double_of_u64 5764607523034235 = 5764607523034235"
    by (simp add: double_of_u64_def round53_small)
  ultimately show ?thesis
    by (simp add: verdict_of_def)
qed

section \<open>The properties of the specification\<close>

text \<open>
  C8. For every 64-bit value \<open>v\<close> and every table size that is an exact power of two,
  \<^verbatim>\<open>v & (TableSize - 1)\<close> equals \<open>v mod TableSize\<close>: the masked index that the update
  and the verification loops use is the modular index, as words and as numbers.
\<close>

theorem C8_mask_is_mod:
  assumes "TableSize = 2 ^ k" and "k < 64"
  shows "masked_index TableSize v = v mod TableSize
       \<and> unat (masked_index TableSize v) = unat v mod unat TableSize"
proof -
  have "masked_index TableSize v = v mod TableSize"
    using assms(1) by (simp only: masked_index_mod)
  then show ?thesis
    by (simp add: unat_mod)
qed

theorem C8_mask_is_mod_witness:
  "(1024 :: u64) = 2 ^ 10 \<and> (10 :: nat) < 64
   \<and> masked_index 1024 123456789 = (123456789 :: u64) mod 1024
   \<and> unat (masked_index 1024 123456789) = unat (123456789 :: u64) mod unat (1024 :: u64)"
proof -
  have a: "(1024 :: u64) = 2 ^ 10" by simp
  have b: "(10 :: nat) < 64" by simp
  from C8_mask_is_mod [OF a b, of 123456789] a b show ?thesis
    by blast
qed

text \<open>
  C9. Starting from state 1, none of the first \<open>10^6\<close> iterates of the transition rule is
  zero (the start state itself included).
\<close>

theorem C9_no_zero_state:
  assumes "k \<le> 1000000"
  shows "(lfsr_next ^^ k) 1 \<noteq> 0"
  using pw_nonzero [of k] by (simp add: pw_def)

theorem C9_no_zero_state_witness:
  "(3 :: nat) \<le> 1000000 \<and> (lfsr_next ^^ 3) 1 \<noteq> 0"
proof -
  have a: "(3 :: nat) \<le> 1000000" by simp
  from C9_no_zero_state [OF a] a show ?thesis
    by blast
qed

text \<open>
  C2. For every \<open>n\<close> from 0 to 10000, \<^verbatim>\<open>HPCC_starts(n)\<close> is, bit for bit, the state
  reached by applying the transition rule \<open>n\<close> times to state 1.
\<close>

theorem C2_starts_is_iteration:
  assumes "0 \<le> n" and "n \<le> 10000"
  shows "HPCC_starts n = (lfsr_next ^^ nat n) 1"
  using HPCC_starts_nonneg [OF assms(1)] by (simp add: pw_def)

theorem C2_starts_is_iteration_witness:
  "(0 :: int) \<le> 5 \<and> (5 :: int) \<le> 10000
   \<and> HPCC_starts 5 = (lfsr_next ^^ nat 5) 1 \<and> HPCC_starts 5 = 32"
proof -
  have a: "(0 :: int) \<le> 5" and b: "(5 :: int) \<le> 10000"
    by simp_all
  have "(lfsr_next ^^ nat 5) 1 = (32 :: u64)"
    using pw_small [of 5] by (simp add: pw_def)
  with C2_starts_is_iteration [OF a b] a b show ?thesis
    by simp
qed

text \<open>
  C7. Periodicity of the jump-ahead: \<^verbatim>\<open>HPCC_starts(0)\<close> is 1, \<^verbatim>\<open>HPCC_starts(PERIOD)\<close>
  equals \<^verbatim>\<open>HPCC_starts(0)\<close>, and \<^verbatim>\<open>HPCC_starts(n + PERIOD)\<close> equals
  \<^verbatim>\<open>HPCC_starts(n)\<close> for every signed 64-bit \<open>n\<close> for which \<open>n + PERIOD\<close> is
  representable in 64 bits as well.
\<close>

theorem C7_periodicity:
  assumes "- (2 ^ 63) \<le> n" and "n + PERIOD < 2 ^ 63"
  shows "HPCC_starts 0 = 1
       \<and> HPCC_starts PERIOD = HPCC_starts 0
       \<and> HPCC_starts (n + PERIOD) = HPCC_starts n"
  by (simp add: HPCC_starts_mod pw_0)

theorem C7_periodicity_witness:
  "- (2 ^ 63) \<le> (- 7 :: int) \<and> (- 7 :: int) + PERIOD < 2 ^ 63
   \<and> HPCC_starts 0 = 1
   \<and> HPCC_starts PERIOD = HPCC_starts 0
   \<and> HPCC_starts (- 7 + PERIOD) = HPCC_starts (- 7)"
proof -
  have a: "- (2 ^ 63) \<le> (- 7 :: int)"
    by simp
  have b: "(- 7 :: int) + PERIOD < 2 ^ 63"
    by (simp add: PERIOD_def)
  from C7_periodicity [OF a b] a b show ?thesis
    by blast
qed

text \<open>
  C1. For every table size that is a power of two and at least 128, and every initial
  table of that size, \<^verbatim>\<open>RandomAccessUpdate\<close> (128 interleaved streams, stream \<open>j\<close>
  started at \<^verbatim>\<open>HPCC_starts((NUPDATE/128)*j)\<close> and advanced \<^verbatim>\<open>NUPDATE/128\<close> times)
  leaves exactly the table that the scalar loop leaves, which starts from state 1 and
  makes \<^verbatim>\<open>NUPDATE\<close> steps of transition followed by XOR into the table.
\<close>

theorem C1_interleaved_equals_scalar:
  assumes "TableSize = 2 ^ k" and "7 \<le> k" and "k < 64"
    and "length Table = unat TableSize"
  shows "RandomAccessUpdate TableSize Table = scalar_update TableSize Table"
  using assms(1,2) update_equiv [of k Table] by simp

theorem C1_interleaved_equals_scalar_witness:
  "(128 :: u64) = 2 ^ 7 \<and> (7 :: nat) \<le> 7 \<and> (7 :: nat) < 64
   \<and> length (replicate 128 (0 :: u64)) = unat (128 :: u64)
   \<and> RandomAccessUpdate 128 (replicate 128 0) = scalar_update 128 (replicate 128 0)"
proof -
  have a: "(128 :: u64) = 2 ^ 7" by simp
  have b: "(7 :: nat) \<le> 7" by simp
  have c: "(7 :: nat) < 64" by simp
  have d: "length (replicate 128 (0 :: u64)) = unat (128 :: u64)" by simp
  from C1_interleaved_equals_scalar [OF a b c d] a b c d show ?thesis
    by blast
qed

text \<open>
  C3. For every table size that is a power of two and at least 128: the table is
  initialised to \<open>Table[i] = i\<close>, and after \<^verbatim>\<open>RandomAccessUpdate\<close> followed by the
  single-stream verification replay it holds \<open>Table[i] = i\<close> again at every index. The
  error count is exactly 0 and the report says passed.
\<close>

theorem C3_verification_finds_no_error:
  assumes "TableSize = 2 ^ k" and "7 \<le> k" and "k < 64"
    and "length block = unat TableSize"
  shows "init_table 0 TableSize block = map word_of_nat [0..<unat TableSize]
       \<and> scalar_update TableSize (RandomAccessUpdate TableSize (init_table 0 TableSize block))
           = map word_of_nat [0..<unat TableSize]
       \<and> count_errors 0 TableSize
            (scalar_update TableSize (RandomAccessUpdate TableSize (init_table 0 TableSize block))) 0
           = 0
       \<and> map_option shown_errors (printed (run_benchmark lg TableSize block t0 t1)) = Some 0
       \<and> map_option shown_verdict (printed (run_benchmark lg TableSize block t0 t1))
           = Some ''passed''"
proof -
  from assms(2) have k: "5 \<le> k" by simp
  from assms(1,4) have len: "length block = unat ((2 :: u64) ^ k)" by simp
  have init: "init_table 0 TableSize block = map word_of_nat [0..<unat TableSize]"
    using assms(4) by (rule init_table_identity)
  have restored: "scalar_update TableSize (RandomAccessUpdate TableSize (init_table 0 TableSize block))
      = map word_of_nat [0..<unat TableSize]"
    using pipeline_restores [OF k len] by (simp only: assms(1))
  have zero: "count_errors 0 TableSize
      (scalar_update TableSize (RandomAccessUpdate TableSize (init_table 0 TableSize block))) 0 = 0"
    by (simp only: restored count_errors_identity)
  have e: "map_option shown_errors (printed (run_benchmark lg TableSize block t0 t1)) =
      Some (count_errors 0 TableSize
        (scalar_update TableSize (RandomAccessUpdate TableSize (init_table 0 TableSize block))) 0)"
    by (simp add: run_benchmark_report printed_def)
  have v: "map_option shown_verdict (printed (run_benchmark lg TableSize block t0 t1)) =
      Some (verdict_of (count_errors 0 TableSize
        (scalar_update TableSize (RandomAccessUpdate TableSize (init_table 0 TableSize block))) 0)
        TableSize)"
    by (simp add: run_benchmark_report printed_def)
  show ?thesis
  proof (intro conjI)
    show "init_table 0 TableSize block = map word_of_nat [0..<unat TableSize]"
      by (rule init)
    show "scalar_update TableSize (RandomAccessUpdate TableSize (init_table 0 TableSize block))
        = map word_of_nat [0..<unat TableSize]"
      by (rule restored)
    show "count_errors 0 TableSize
        (scalar_update TableSize (RandomAccessUpdate TableSize (init_table 0 TableSize block))) 0 = 0"
      by (rule zero)
    show "map_option shown_errors (printed (run_benchmark lg TableSize block t0 t1)) = Some 0"
      by (simp only: e zero)
    show "map_option shown_verdict (printed (run_benchmark lg TableSize block t0 t1))
        = Some ''passed''"
      by (simp only: v zero verdict_of_zero)
  qed
qed

theorem C3_verification_finds_no_error_witness:
  "(128 :: u64) = 2 ^ 7 \<and> (7 :: nat) \<le> 7 \<and> (7 :: nat) < 64
   \<and> length (replicate 128 (0 :: u64)) = unat (128 :: u64)
   \<and> count_errors 0 128
        (scalar_update 128 (RandomAccessUpdate 128 (init_table 0 128 (replicate 128 0)))) 0 = 0
   \<and> map_option shown_verdict (printed (run_benchmark 7 128 (replicate 128 0) 0 1))
       = Some ''passed''"
proof -
  have a: "(128 :: u64) = 2 ^ 7" by simp
  have b: "(7 :: nat) \<le> 7" by simp
  have c: "(7 :: nat) < 64" by simp
  have d: "length (replicate 128 (0 :: u64)) = unat (128 :: u64)" by simp
  from C3_verification_finds_no_error [OF a b c d, of 7 0 1] a b c d show ?thesis
    by blast
qed

text \<open>
  C4, as the code has it. \<^verbatim>\<open>main\<close> derives the table size as the largest power of
  two that is not above the word count of the whole memory budget,
  \<open>2^32 / sizeof(uint64_t) = 2^29\<close> words, with \<open>logTableSize = 29\<close> the matching
  exponent. The halving before the first test of the sizing loop belongs to the counting
  of the exponent (lemma \<open>size_loop_floor_log\<close>); it does not halve the budget.
\<close>

theorem C4_table_size_whole_budget:
  "table_sizing = (1 / 2, 29, 2 ^ 29)
   \<and> map_option shown_logTableSize (printed (main (Some block) t0 t1)) = Some 29
   \<and> map_option shown_TableSize (printed (main (Some block) t0 t1)) = Some (2 ^ 29)
   \<and> (2 :: real) ^ 29 \<le> 2 ^ 32 / 8 \<and> (2 :: real) ^ 32 / 8 < 2 * 2 ^ 29"
  by (simp add: table_sizing_value main_runs run_benchmark_report printed_def)

text \<open>
  C4 read as a table of \<open>2^28\<close> words with exponent 28 does not hold: the sizing
  of \<^verbatim>\<open>main\<close> ends with other values.
\<close>

theorem C4_half_budget_counterexample:
  "snd (snd table_sizing) \<noteq> 2 ^ 28 \<and> fst (snd table_sizing) \<noteq> 28"
  by (simp add: table_sizing_value)

text \<open>
  C5, as the code has it. When the elapsed time is zero or negative the division is not
  performed: the factor \<open>1 / realtime\<close> is replaced by the sentinel \<open>-1.0\<close>, which is then
  scaled like any other rate, so the value reported is \<open>-1.0 * 1e-9 * NUPDATE\<close>; for the
  table of \<^verbatim>\<open>main\<close> that is \<open>-2.147483648\<close>.
\<close>

theorem C5_sentinel_rate_is_scaled:
  assumes "t1 - t0 \<le> 0"
  shows "compute_GUPs (t1 - t0) nupdate = Inr (- 1 * (0.000000001 * real (unat nupdate)))
       \<and> map_option shown_GUPs (printed (main (Some block) t0 t1)) = Some (- 2.147483648)"
  using assms by (simp add: compute_GUPs_value main_GUPs del: of_nat_unat)

theorem C5_sentinel_rate_is_scaled_witness:
  "(5 :: real) - 5 \<le> 0
   \<and> compute_GUPs (5 - 5) 2147483648 = Inr (- 1 * (0.000000001 * real (unat (2147483648 :: u64))))
   \<and> map_option shown_GUPs (printed (main (Some (replicate 536870912 0)) 5 5))
       = Some (- 2.147483648)"
proof -
  have a: "(5 :: real) - 5 \<le> 0" by simp
  from C5_sentinel_rate_is_scaled [OF a, of 2147483648 "replicate 536870912 0"] a show ?thesis
    by blast
qed

text \<open>
  C5 read as reporting the sentinel \<open>-1.0\<close> itself does not hold: with both clock
  readings equal the program reports \<open>-2.147483648\<close>.
\<close>

theorem C5_reported_value_counterexample:
  "compute_GUPs (3 - 3) (NUPDATE 536870912) = Inr (- 2.147483648)
   \<and> map_option shown_GUPs (printed (main (Some (replicate 536870912 0)) 3 3))
       = Some (- 2.147483648)
   \<and> map_option shown_GUPs (printed (main (Some (replicate 536870912 0)) 3 3))
       \<noteq> Some (- 1)"
  unfolding main_GUPs by (simp add: compute_GUPs_value NUPDATE_def)



text \<open>
  C10. Whenever the allocation succeeds \<^verbatim>\<open>main\<close> returns 0; and the part of \<^verbatim>\<open>main\<close>
  that follows the allocation returns 0 for every table size, block and clock, whatever
  the verdict it prints (lemma \<open>failed_run_exits_zero\<close> is a run that prints failed).
\<close>

theorem C10_exit_status:
  "exit_code (main (Some block) t0 t1) = Some 0
   \<and> exit_code (run_benchmark logTableSize TableSize block' t0' t1') = Some 0"
  by (simp add: main_runs run_benchmark_report exit_code_def)

end
